theory Spec2Isabelle
  imports Main
begin

section \<open>Indexing the LibriSpeech corpus: a model of librispeech\_initialize.py\<close>

text \<open>
  The development follows \<^verbatim>\<open>SimUGANSpeech/scripts/librispeech_initialize.py\<close>.
  A Python \<^verbatim>\<open>str\<close> is represented by its UTF-8 bytes, a \<^verbatim>\<open>bytes\<close> value by its
  bytes; both are values of type \<^typ>\<open>string\<close>. Python names with a leading underscore
  lose it (\<^verbatim>\<open>_voice_txt_dict_from_path\<close> is \<open>voice_txt_dict_from_path\<close>).
  An exception is a value \<open>Inl e\<close> of a result type \<open>py_error + 'a\<close>.
\<close>

subsection \<open>Exceptions\<close>

datatype py_error =
    IndexError
  | UnicodeDecodeError
  | FileNotFoundError
  | IsADirectoryError
  | NotADirectoryError
  | FileExistsError
  | URLError
  | ReadError
  | ValueError string

subsection \<open>String methods\<close>

definition startswith :: "string \<Rightarrow> string \<Rightarrow> bool" where
  "startswith s p = (take (length p) s = p)"

definition endswith :: "string \<Rightarrow> string \<Rightarrow> bool" where
  "endswith s p = (length p \<le> length s \<and> drop (length s - length p) s = p)"

text \<open>\<^verbatim>\<open>re.split(' ', line)\<close>: every single space separates; the result is never empty.\<close>

fun re_split_space :: "string \<Rightarrow> string list" where
  "re_split_space [] = [[]]"
| "re_split_space (c # cs) =
     (if c = CHR '' '' then [] # re_split_space cs
      else (case re_split_space cs of
              [] \<Rightarrow> [[c]]
            | w # ws \<Rightarrow> (c # w) # ws))"

text \<open>\<^verbatim>\<open>" ".join(xs)\<close>.\<close>

fun join_space :: "string list \<Rightarrow> string" where
  "join_space [] = []"
| "join_space [x] = x"
| "join_space (x # y # ys) = x @ '' '' @ join_space (y # ys)"

subsection \<open>posixpath\<close>

text \<open>\<^verbatim>\<open>os.path.join(a, b)\<close>, \<^verbatim>\<open>os.path.basename\<close> and \<^verbatim>\<open>os.path.dirname\<close> as
  \<^verbatim>\<open>posixpath\<close> defines them.\<close>

definition path_join :: "string \<Rightarrow> string \<Rightarrow> string" where
  "path_join a b =
     (if startswith b ''/'' then b
      else if a = [] \<or> endswith a ''/'' then a @ b
      else a @ ''/'' @ b)"

definition basename :: "string \<Rightarrow> string" where
  "basename p = rev (takeWhile (\<lambda>c. c \<noteq> CHR ''/'') (rev p))"

definition dirname :: "string \<Rightarrow> string" where
  "dirname p =
     (let head = rev (dropWhile (\<lambda>c. c \<noteq> CHR ''/'') (rev p))
      in if head \<noteq> [] \<and> head \<noteq> replicate (length head) (CHR ''/'')
         then rev (dropWhile (\<lambda>c. c = CHR ''/'') (rev head))
         else head)"

subsection \<open>The file system\<close>

text \<open>
  The file system is a tree: a file holds its bytes, a directory its entries in the order
  in which the directory is listed. There are no symbolic links. A path is resolved from
  the root of the tree, which is also the working directory; empty components and
  \<^verbatim>\<open>.\<close> are skipped and \<^verbatim>\<open>..\<close> drops the component before it.
\<close>

datatype node = File string | Dir "(string \<times> node) list"

fun is_dir :: "node \<Rightarrow> bool" where
  "is_dir (Dir es) = True"
| "is_dir (File c) = False"

fun split_sep :: "string \<Rightarrow> string list" where
  "split_sep [] = [[]]"
| "split_sep (c # cs) =
     (if c = CHR ''/'' then [] # split_sep cs
      else (case split_sep cs of
              [] \<Rightarrow> [[c]]
            | w # ws \<Rightarrow> (c # w) # ws))"

fun norm_comps :: "string list \<Rightarrow> string list \<Rightarrow> string list" where
  "norm_comps acc [] = rev acc"
| "norm_comps acc (x # xs) =
     (if x = [] \<or> x = ''.'' then norm_comps acc xs
      else if x = ''..'' then norm_comps (tl acc) xs
      else norm_comps (x # acc) xs)"

definition comps :: "string \<Rightarrow> string list" where
  "comps p = norm_comps [] (split_sep p)"

fun lookup :: "node \<Rightarrow> string list \<Rightarrow> node option" where
  "lookup n [] = Some n"
| "lookup (File c) (x # xs) = None"
| "lookup (Dir es) (x # xs) =
     (case map_of es x of None \<Rightarrow> None | Some n \<Rightarrow> lookup n xs)"

definition resolve :: "node \<Rightarrow> string \<Rightarrow> node option" where
  "resolve fs p = (if p = [] then None else lookup fs (comps p))"

text \<open>\<^verbatim>\<open>os.path.exists\<close>.\<close>

definition path_exists :: "node \<Rightarrow> string \<Rightarrow> bool" where
  "path_exists fs p = (resolve fs p \<noteq> None)"

text \<open>\<^verbatim>\<open>open(p, 'rb')\<close> followed by reading the whole file.\<close>

definition open_rb :: "node \<Rightarrow> string \<Rightarrow> py_error + string" where
  "open_rb fs p =
     (case resolve fs p of
        None \<Rightarrow> Inl FileNotFoundError
      | Some (Dir es) \<Rightarrow> Inl IsADirectoryError
      | Some (File c) \<Rightarrow> Inr c)"

text \<open>
  \<^verbatim>\<open>os.walk(top)\<close>, top-down: a directory yields its own triple (path, names of the
  subdirectories, names of the other entries) before those of its subdirectories, which
  are visited in listing order under the path \<^verbatim>\<open>os.path.join(top, name)\<close>. A top that
  is not a directory yields nothing.
\<close>

type_synonym walk_item = "string \<times> string list \<times> string list"

fun walk :: "string \<Rightarrow> node \<Rightarrow> walk_item list" where
  "walk tp (File c) = []"
| "walk tp (Dir es) =
     (tp, map fst (filter (\<lambda>e. is_dir (snd e)) es),
           map fst (filter (\<lambda>e. \<not> is_dir (snd e)) es))
     # concat (map (\<lambda>e. walk (path_join tp (fst e)) (snd e))
                   (filter (\<lambda>e. is_dir (snd e)) es))"

definition os_walk :: "node \<Rightarrow> string \<Rightarrow> walk_item list" where
  "os_walk fs tp =
     (case resolve fs tp of None \<Rightarrow> [] | Some n \<Rightarrow> walk tp n)"

subsection \<open>Decoding and stripping a line\<close>

text \<open>
  \<^verbatim>\<open>bytes.decode('utf8')\<close> is strict: it accepts the well-formed UTF-8 byte sequences
  only. \<open>utf8_len\<close> is the length of the well-formed sequence at the head of its
  argument (0 when there is none); \<open>utf8_chars\<close> cuts the bytes into code points, each
  kept as its bytes.
\<close>

definition byte_at :: "string \<Rightarrow> nat \<Rightarrow> nat" where
  "byte_at s i = (if i < length s then of_char (s ! i) else 256)"

definition cont :: "nat \<Rightarrow> bool" where
  "cont b = (128 \<le> b \<and> b \<le> 191)"

definition utf8_len :: "string \<Rightarrow> nat" where
  "utf8_len s =
     (let a = byte_at s 0; b = byte_at s 1; c = byte_at s 2; d = byte_at s 3
      in if a < 128 then 1
         else if 194 \<le> a \<and> a \<le> 223 \<and> cont b then 2
         else if a = 224 \<and> 160 \<le> b \<and> b \<le> 191 \<and> cont c then 3
         else if 225 \<le> a \<and> a \<le> 236 \<and> cont b \<and> cont c then 3
         else if a = 237 \<and> 128 \<le> b \<and> b \<le> 159 \<and> cont c then 3
         else if 238 \<le> a \<and> a \<le> 239 \<and> cont b \<and> cont c then 3
         else if a = 240 \<and> 144 \<le> b \<and> b \<le> 191 \<and> cont c \<and> cont d then 4
         else if 241 \<le> a \<and> a \<le> 243 \<and> cont b \<and> cont c \<and> cont d then 4
         else if a = 244 \<and> 128 \<le> b \<and> b \<le> 143 \<and> cont c \<and> cont d then 4
         else 0)"

function utf8_chars :: "string \<Rightarrow> string list option" where
  "utf8_chars s =
     (if s = [] then Some []
      else if utf8_len s = 0 then None
      else map_option ((#) (take (utf8_len s) s)) (utf8_chars (drop (utf8_len s) s)))"
  by pat_completeness auto
termination
  by (relation "measure length") auto

declare utf8_chars.simps [simp del]

text \<open>
  The code points for which \<^verbatim>\<open>str.isspace\<close> holds, as UTF-8: U+0009 to U+000D,
  U+001C to U+0020, U+0085, U+00A0, U+1680, U+2000 to U+200A, U+2028, U+2029, U+202F,
  U+205F and U+3000.
\<close>

definition isspace :: "string \<Rightarrow> bool" where
  "isspace ch =
     (case map of_char ch :: nat list of
        [a] \<Rightarrow> (9 \<le> a \<and> a \<le> 13) \<or> (28 \<le> a \<and> a \<le> 32)
      | [a, b] \<Rightarrow> a = 194 \<and> (b = 133 \<or> b = 160)
      | [a, b, c] \<Rightarrow>
          (a = 225 \<and> b = 154 \<and> c = 128) \<or>
          (a = 226 \<and> b = 128 \<and> ((128 \<le> c \<and> c \<le> 138) \<or> c = 168 \<or> c = 169 \<or> c = 175)) \<or>
          (a = 226 \<and> b = 129 \<and> c = 159) \<or>
          (a = 227 \<and> b = 128 \<and> c = 128)
      | _ \<Rightarrow> False)"

text \<open>\<^verbatim>\<open>str.strip()\<close> on the code points of a string.\<close>

definition str_strip :: "string list \<Rightarrow> string list" where
  "str_strip cs = rev (dropWhile isspace (rev (dropWhile isspace cs)))"

text \<open>\<^verbatim>\<open>x.decode('utf8').strip()\<close>.\<close>

definition decode_strip :: "string \<Rightarrow> py_error + string" where
  "decode_strip x =
     (case utf8_chars x of
        None \<Rightarrow> Inl UnicodeDecodeError
      | Some cs \<Rightarrow> Inr (concat (str_strip cs)))"

text \<open>\<^verbatim>\<open>f.readlines()\<close> of a binary file: lines end at byte 10, which they keep.\<close>

fun readlines :: "string \<Rightarrow> string list" where
  "readlines [] = []"
| "readlines (c # cs) =
     (if c = CHR 0x0A then [c] # readlines cs
      else (case readlines cs of
              [] \<Rightarrow> [[c]]
            | l # ls \<Rightarrow> (c # l) # ls))"

text \<open>A list comprehension whose element expression may raise stops at the first
  exception.\<close>

fun map_result :: "('a \<Rightarrow> py_error + 'b) \<Rightarrow> 'a list \<Rightarrow> py_error + 'b list" where
  "map_result f [] = Inr []"
| "map_result f (x # xs) =
     (case f x of
        Inl e \<Rightarrow> Inl e
      | Inr y \<Rightarrow> (case map_result f xs of Inl e \<Rightarrow> Inl e | Inr ys \<Rightarrow> Inr (y # ys)))"

subsection \<open>\<^verbatim>\<open>_transcriptions_and_flac\<close>\<close>

text \<open>Lines 123 and 124: the decoded, stripped lines of the transcript file.\<close>

definition stripped_lines :: "node \<Rightarrow> string \<Rightarrow> py_error + string list" where
  "stripped_lines fs txt_file_path =
     (case open_rb fs txt_file_path of
        Inl e \<Rightarrow> Inl e
      | Inr content \<Rightarrow> map_result decode_strip (readlines content))"

text \<open>Lines 126 to 130: the loop over the lines, with the two lists it appends to.
  \<^verbatim>\<open>splitted[0]\<close> raises IndexError on an empty list.\<close>

fun parse_lines ::
  "string \<Rightarrow> string list \<Rightarrow> string list \<times> string list \<Rightarrow> py_error + string list \<times> string list"
where
  "parse_lines parent_dir_path [] (transcriptions, flac_files) =
     Inr (transcriptions, flac_files)"
| "parse_lines parent_dir_path (line # rest) (transcriptions, flac_files) =
     (case re_split_space line of
        [] \<Rightarrow> Inl IndexError
      | file_name # splitted_tl \<Rightarrow>
          parse_lines parent_dir_path rest
            (transcriptions @ [join_space splitted_tl],
             flac_files @ [path_join parent_dir_path (file_name @ ''.flac'')]))"

definition transcriptions_and_flac ::
  "node \<Rightarrow> string \<Rightarrow> py_error + string list \<times> string list"
where
  "transcriptions_and_flac fs txt_file_path =
     (let parent_dir_path = dirname txt_file_path
      in case stripped_lines fs txt_file_path of
           Inl e \<Rightarrow> Inl e
         | Inr lines \<Rightarrow> parse_lines parent_dir_path lines ([], []))"

subsection \<open>\<^verbatim>\<open>_voice_txt_dict_from_path\<close>\<close>

text \<open>
  A \<^verbatim>\<open>dict\<close> iterates in insertion order, so \<^verbatim>\<open>voice_txt_dict\<close> is an association
  list: a new key goes to the end, a known key keeps its place and its list grows.
\<close>

type_synonym voice_txt_dict = "(string \<times> string list) list"

fun dict_add :: "voice_txt_dict \<Rightarrow> string \<Rightarrow> string \<Rightarrow> voice_txt_dict" where
  "dict_add [] voice_id txt_file = [(voice_id, [txt_file])]"
| "dict_add ((k, vs) # d) voice_id txt_file =
     (if k = voice_id then (k, vs @ [txt_file]) # d
      else (k, vs) # dict_add d voice_id txt_file)"

text \<open>Lines 90 to 100: the loop over the triples of \<^verbatim>\<open>os.walk\<close>. Indexing the
  filtered list with \<^verbatim>\<open>[0]\<close> raises IndexError when it is empty.\<close>

fun voice_loop :: "walk_item list \<Rightarrow> voice_txt_dict \<Rightarrow> py_error + voice_txt_dict" where
  "voice_loop [] voice_txt_dict = Inr voice_txt_dict"
| "voice_loop ((dir_name, sub_directories, file_names) # rest) voice_txt_dict =
     (if length sub_directories = 0 then
        (case filter (\<lambda>x. endswith x ''txt'') (map (path_join dir_name) file_names) of
           [] \<Rightarrow> Inl IndexError
         | txt_file # _ \<Rightarrow>
             voice_loop rest (dict_add voice_txt_dict (basename dir_name) txt_file))
      else voice_loop rest voice_txt_dict)"

definition voice_txt_dict_from_path :: "node \<Rightarrow> string \<Rightarrow> py_error + voice_txt_dict" where
  "voice_txt_dict_from_path fs folder_path = voice_loop (os_walk fs folder_path) []"

subsection \<open>\<^verbatim>\<open>flacpath_transcription_id\<close>\<close>

record index =
  paths :: "string list"
  transcriptions :: "string list"
  ids :: "string list"

text \<open>Lines 153 to 157, the inner loop, and lines 151 to 157, the outer one.\<close>

fun txt_loop :: "node \<Rightarrow> string \<Rightarrow> string list \<Rightarrow> index \<Rightarrow> py_error + index" where
  "txt_loop fs voice_id [] acc = Inr acc"
| "txt_loop fs voice_id (txt_file # rest) acc =
     (case transcriptions_and_flac fs txt_file of
        Inl e \<Rightarrow> Inl e
      | Inr (t, flacs) \<Rightarrow>
          txt_loop fs voice_id rest
            \<lparr>paths = paths acc @ flacs,
             transcriptions = transcriptions acc @ t,
             ids = ids acc @ replicate (length flacs) voice_id\<rparr>)"

fun id_loop :: "node \<Rightarrow> voice_txt_dict \<Rightarrow> index \<Rightarrow> py_error + index" where
  "id_loop fs [] acc = Inr acc"
| "id_loop fs ((voice_id, txt_files) # rest) acc =
     (case txt_loop fs voice_id txt_files acc of
        Inl e \<Rightarrow> Inl e
      | Inr acc' \<Rightarrow> id_loop fs rest acc')"

definition flacpath_transcription_id :: "node \<Rightarrow> string \<Rightarrow> py_error + index" where
  "flacpath_transcription_id fs folder_path =
     (case voice_txt_dict_from_path fs folder_path of
        Inl e \<Rightarrow> Inl e
      | Inr voice_txt_dict \<Rightarrow>
          id_loop fs voice_txt_dict \<lparr>paths = [], transcriptions = [], ids = []\<rparr>)"

subsection \<open>Changing the file system\<close>

text \<open>
  \<^verbatim>\<open>open(p, 'wb')\<close> with the write that follows (\<open>open_wb\<close>), \<^verbatim>\<open>os.remove\<close>,
  \<^verbatim>\<open>os.listdir\<close> and \<^verbatim>\<open>os.makedirs\<close>. A new entry goes to the end of its
  directory's listing; a file written again keeps its place. When an operation raises,
  the result is the exception alone.
\<close>

fun set_entry :: "(string \<times> node) list \<Rightarrow> string \<Rightarrow> node \<Rightarrow> (string \<times> node) list" where
  "set_entry [] x n = [(x, n)]"
| "set_entry ((k, v) # es) x n =
     (if k = x then (k, n) # es else (k, v) # set_entry es x n)"

fun put :: "node \<Rightarrow> string list \<Rightarrow> string \<Rightarrow> py_error + node" where
  "put n [] content = Inl IsADirectoryError"
| "put (File c) (x # xs) content = Inl NotADirectoryError"
| "put (Dir es) [x] content =
     (case map_of es x of
        Some (Dir ds) \<Rightarrow> Inl IsADirectoryError
      | _ \<Rightarrow> Inr (Dir (set_entry es x (File content))))"
| "put (Dir es) (x # y # ys) content =
     (case map_of es x of
        None \<Rightarrow> Inl FileNotFoundError
      | Some n \<Rightarrow>
          (case put n (y # ys) content of
             Inl e \<Rightarrow> Inl e
           | Inr n' \<Rightarrow> Inr (Dir (set_entry es x n'))))"

definition open_wb :: "node \<Rightarrow> string \<Rightarrow> string \<Rightarrow> py_error + node" where
  "open_wb fs p content =
     (if p = [] then Inl FileNotFoundError else put fs (comps p) content)"

fun remove_at :: "node \<Rightarrow> string list \<Rightarrow> py_error + node" where
  "remove_at n [] = Inl IsADirectoryError"
| "remove_at (File c) (x # xs) = Inl NotADirectoryError"
| "remove_at (Dir es) [x] =
     (case map_of es x of
        None \<Rightarrow> Inl FileNotFoundError
      | Some (Dir ds) \<Rightarrow> Inl IsADirectoryError
      | Some (File c) \<Rightarrow> Inr (Dir (filter (\<lambda>e. fst e \<noteq> x) es)))"
| "remove_at (Dir es) (x # y # ys) =
     (case map_of es x of
        None \<Rightarrow> Inl FileNotFoundError
      | Some n \<Rightarrow>
          (case remove_at n (y # ys) of
             Inl e \<Rightarrow> Inl e
           | Inr n' \<Rightarrow> Inr (Dir (set_entry es x n'))))"

definition os_remove :: "node \<Rightarrow> string \<Rightarrow> py_error + node" where
  "os_remove fs p = (if p = [] then Inl FileNotFoundError else remove_at fs (comps p))"

definition os_listdir :: "node \<Rightarrow> string \<Rightarrow> py_error + string list" where
  "os_listdir fs p =
     (case resolve fs p of
        None \<Rightarrow> Inl FileNotFoundError
      | Some (File c) \<Rightarrow> Inl NotADirectoryError
      | Some (Dir es) \<Rightarrow> Inr (map fst es))"




subsection \<open>The clean step of the script\<close>

text \<open>Lines 298 to 312 of the script, as a function of the file system, of
  \<^verbatim>\<open>save_dir\<close> and of the selected folder names. Printing is not part of the model:
  \<^verbatim>\<open>verbose\<close> selects what is printed and nothing else.\<close>

fun remove_loop :: "node \<Rightarrow> string list \<Rightarrow> py_error + node" where
  "remove_loop fs [] = Inr fs"
| "remove_loop fs (f # rest) =
     (case os_remove fs f of
        Inl e \<Rightarrow> Inl e
      | Inr fs' \<Rightarrow> remove_loop fs' rest)"

fun clean :: "node \<Rightarrow> string \<Rightarrow> string list \<Rightarrow> bool \<Rightarrow> py_error + node" where
  "clean fs save_dir [] verbose = Inr fs"
| "clean fs save_dir (fname # rest) verbose =
     (let fpath = path_join save_dir fname
      in if path_exists fs fpath then
           (case os_listdir fs fpath of
              Inl e \<Rightarrow> Inl e
            | Inr names \<Rightarrow>
                (let pkl_files =
                       map (\<lambda>f. path_join (path_join save_dir fname) f)
                         (filter (\<lambda>f. endswith f ''.pkl'') names)
                 in case remove_loop fs pkl_files of
                      Inl e \<Rightarrow> Inl e
                    | Inr fs' \<Rightarrow> clean fs' save_dir rest verbose))
         else clean fs save_dir rest verbose)"

subsection \<open>\<^verbatim>\<open>_maybe_download_and_extract\<close>\<close>








subsection \<open>\<^verbatim>\<open>librispeech_initialize\<close>\<close>

text \<open>\<^verbatim>\<open>pickle.dumps\<close> is the parameter \<open>dumps\<close>. The source never reads
  \<^verbatim>\<open>save_folder\<close>.\<close>

fun librispeech_initialize ::
  "(index \<Rightarrow> string) \<Rightarrow> node \<Rightarrow> string \<Rightarrow> string list \<Rightarrow> string \<Rightarrow> bool \<Rightarrow> py_error + node"
where
  "librispeech_initialize dumps fs folder_dir [] save_folder verbose = Inr fs"
| "librispeech_initialize dumps fs folder_dir (fname # rest) save_folder verbose =
     (let fpath = path_join folder_dir fname;
          master_file_path = path_join fpath ''master.pkl''
      in if \<not> path_exists fs fpath then
           Inl (ValueError
             (fpath @ '' does not exist. Make sure you download the data first.''))
         else
           (case flacpath_transcription_id fs fpath of
              Inl e \<Rightarrow> Inl e
            | Inr data \<Rightarrow>
                (case open_wb fs master_file_path (dumps data) of
                   Inl e \<Rightarrow> Inl e
                 | Inr fs' \<Rightarrow>
                     librispeech_initialize dumps fs' folder_dir rest save_folder verbose)))"

subsection \<open>Reading one line\<close>

text \<open>What the loop of \<^verbatim>\<open>_transcriptions_and_flac\<close> takes from one stripped line:
  \<^verbatim>\<open>splitted[0]\<close> and \<^verbatim>\<open>" ".join(splitted[1:])\<close>.\<close>

definition line_file_name :: "string \<Rightarrow> string" where
  "line_file_name line = hd (re_split_space line)"

definition line_transcription :: "string \<Rightarrow> string" where
  "line_transcription line = join_space (tl (re_split_space line))"

text \<open>The shape of a line \<^verbatim>\<open><utterance-id> <text>\<close> of a transcript file, on
  its bytes: the id is a non-empty run of code points without white space, the text does
  not end in white space, and what follows it, the line terminator included, is white
  space only.\<close>

definition token :: "string \<Rightarrow> bool" where
  "token s =
     (case utf8_chars s of
        None \<Rightarrow> False
      | Some cs \<Rightarrow> cs \<noteq> [] \<and> list_all (\<lambda>c. \<not> isspace c) cs \<and> CHR '' '' \<notin> set s)"

definition rstripped :: "string \<Rightarrow> bool" where
  "rstripped s =
     (case utf8_chars s of
        None \<Rightarrow> False
      | Some cs \<Rightarrow> cs = [] \<or> \<not> isspace (last cs))"

definition blank :: "string \<Rightarrow> bool" where
  "blank s = (case utf8_chars s of None \<Rightarrow> False | Some cs \<Rightarrow> list_all isspace cs)"

subsection \<open>Example file systems\<close>

text \<open>A transcript of two lines, the second the line of the parsing example; one with
  an empty line between two utterances; one whose second line holds white space only;
  one whose line is not UTF-8.\<close>

definition hello_content :: string where
  "hello_content =
     ''1234-0000 GOOD MORNING'' @ [CHR 0x0A] @ ''1234-0001 HELLO WORLD'' @ [CHR 0x0A]"

definition hello_fs :: node where
  "hello_fs =
     Dir [(''LibriSpeech'', Dir [(''dev-clean'', Dir [(''1234'', Dir
       [(''1234.trans.txt'', File hello_content),
        (''1234-0001.flac'', File [])])])])]"

definition blank_content :: string where
  "blank_content = ''x A'' @ [CHR 0x0A, CHR 0x0A] @ ''y B'' @ [CHR 0x0A]"

definition blank_fs :: node where
  "blank_fs =
     Dir [(''d'', Dir
       [(''t.txt'', File (''x A'' @ [CHR 0x0A, CHR 0x0A] @ ''y B'' @ [CHR 0x0A]))])]"

definition spaces_fs :: node where
  "spaces_fs =
     Dir [(''d'', Dir
       [(''t.txt'', File (''A1 HI'' @ [CHR 0x0A] @ ''   '' @ [CHR 0x0D, CHR 0x0A]))])]"

definition bad_fs :: node where
  "bad_fs = Dir [(''d'', Dir [(''t.txt'', File (''A1 HI'' @ [CHR 0xC0, CHR 0x0A]))])]"

text \<open>A corpus in the layout of the module's docstring: two readers, and a chapter
  number that both of them use.\<close>

definition dev_clean_entries :: "(string \<times> node) list" where
  "dev_clean_entries =
     [(''19'', Dir
        [(''198'', Dir
           [(''19-198-0001.flac'', File []),
            (''19-198.trans.txt'',
               File (''19-198-0001 NORTHANGER ABBEY'' @ [CHR 0x0A] @
                     ''19-198-0002 THIS LITTLE WORK'' @ [CHR 0x0A]))]),
         (''227'', Dir
           [(''19-227.trans.txt'', File (''19-227-0001 CHAPTER ONE'' @ [CHR 0x0A]))])]),
      (''26'', Dir
        [(''198'', Dir
           [(''26-198.trans.txt'', File (''26-198-0001 THE END'' @ [CHR 0x0A]))])])]"

definition corpus_fs :: node where
  "corpus_fs =
     Dir [(''LibriSpeech'', Dir [(''README.TXT'', File ''LibriSpeech''),
       (''dev-clean'', Dir dev_clean_entries)])]"

definition corpus_index :: index where
  "corpus_index =
     \<lparr>paths =
        [''LibriSpeech/dev-clean/19/198/19-198-0001.flac'',
         ''LibriSpeech/dev-clean/19/198/19-198-0002.flac'',
         ''LibriSpeech/dev-clean/26/198/26-198-0001.flac'',
         ''LibriSpeech/dev-clean/19/227/19-227-0001.flac''],
      transcriptions =
        [''NORTHANGER ABBEY'', ''THIS LITTLE WORK'', ''THE END'', ''CHAPTER ONE''],
      ids = [''198'', ''198'', ''198'', ''227'']\<rparr>"

subsection \<open>What the walker and the builder are measured against\<close>

text \<open>A leaf is a triple of \<^verbatim>\<open>os.walk\<close> without subdirectories; \<open>txt_files\<close> is the
  filtered list the walker indexes with \<^verbatim>\<open>[0]\<close>, \<open>selected_txt\<close> what that index
  takes of it. \<open>first_occ\<close> keeps the first occurrence of every element, in order.\<close>

definition is_leaf :: "walk_item \<Rightarrow> bool" where
  "is_leaf item = (length (fst (snd item)) = 0)"

definition leaves :: "walk_item list \<Rightarrow> walk_item list" where
  "leaves items = filter is_leaf items"

definition txt_files :: "walk_item \<Rightarrow> string list" where
  "txt_files item =
     filter (\<lambda>x. endswith x ''txt'') (map (path_join (fst item)) (snd (snd item)))"

definition selected_txt :: "walk_item \<Rightarrow> string list" where
  "selected_txt item = take 1 (txt_files item)"

fun first_occ :: "'a list \<Rightarrow> 'a list" where
  "first_occ [] = []"
| "first_occ (x # xs) = x # filter (\<lambda>y. y \<noteq> x) (first_occ xs)"

definition selection :: "walk_item \<Rightarrow> string \<times> string" where
  "selection item = (basename (fst item), hd (txt_files item))"

fun group_add :: "voice_txt_dict \<Rightarrow> string \<times> string \<Rightarrow> voice_txt_dict" where
  "group_add d (g, t) = dict_add d g t"

text \<open>The lines, paths, transcriptions and ids one transcript file contributes; a
  group is discovered before another when a leaf of the first comes before every leaf of
  the second.\<close>

definition file_lines :: "node \<Rightarrow> string \<Rightarrow> string list" where
  "file_lines fs txt_file =
     (case stripped_lines fs txt_file of Inl e \<Rightarrow> [] | Inr ls \<Rightarrow> ls)"

definition file_paths :: "node \<Rightarrow> string \<Rightarrow> string list" where
  "file_paths fs txt_file =
     map (\<lambda>l. path_join (dirname txt_file) (line_file_name l @ ''.flac''))
       (file_lines fs txt_file)"

definition file_transcriptions :: "node \<Rightarrow> string \<Rightarrow> string list" where
  "file_transcriptions fs txt_file = map line_transcription (file_lines fs txt_file)"

definition file_ids :: "node \<Rightarrow> string \<Rightarrow> string \<Rightarrow> string list" where
  "file_ids fs voice_id txt_file = replicate (length (file_lines fs txt_file)) voice_id"

definition discovered_before :: "string list \<Rightarrow> string \<Rightarrow> string \<Rightarrow> bool" where
  "discovered_before gs a b = (a \<in> set (takeWhile (\<lambda>g. g \<noteq> b) gs))"

text \<open>A leaf with several candidates; a leaf with audio only; a corpus with a leaf
  that has no transcript.\<close>

definition two_txt_fs :: node where
  "two_txt_fs =
     Dir [(''198'', Dir [(''a.flac'', File []), (''context'', File ''c''),
                         (''contxt'', File ''c''), (''19-198.trans.txt'', File ''t''),
                         (''z.txt'', File ''z'')])]"

definition flac_only_fs :: node where
  "flac_only_fs =
     Dir [(''dev-clean'', Dir [(''84'', Dir [(''121123'', Dir
       [(''84-121123-0000.flac'', File []), (''84-121123-0001.flac'', File [])])])])]"

definition no_txt_fs :: node where
  "no_txt_fs =
     Dir [(''d'', Dir [(''19'', Dir [(''198'', Dir [(''19-198.trans.txt'', File ''t'')]),
                                     (''227'', Dir [(''19-227-0001.flac'', File [])])])])]"

definition corpus_dict :: voice_txt_dict where
  "corpus_dict =
     [(''198'', [''LibriSpeech/dev-clean/19/198/19-198.trans.txt'',
                 ''LibriSpeech/dev-clean/26/198/26-198.trans.txt'']),
      (''227'', [''LibriSpeech/dev-clean/19/227/19-227.trans.txt''])]"

text \<open>The path of the persisted index of a dataset; a dataset without persisted
  index: its directory is absent, or lists no name ending in \<^verbatim>\<open>.pkl\<close>.\<close>

definition master_path :: "string \<Rightarrow> string \<Rightarrow> string" where
  "master_path folder_dir fname = path_join (path_join folder_dir fname) ''master.pkl''"

definition no_index :: "node \<Rightarrow> string \<Rightarrow> string \<Rightarrow> bool" where
  "no_index fs save_dir fname =
     (case resolve fs (path_join save_dir fname) of
        None \<Rightarrow> True
      | Some (File c) \<Rightarrow> False
      | Some (Dir es) \<Rightarrow> list_all (\<lambda>e. \<not> endswith (fst e) ''.pkl'') es)"

text \<open>The names a directory lists (none when the path is no directory). A name is
  valid when it can be an entry of a directory: not empty, without separator, neither
  \<^verbatim>\<open>.\<close> nor \<^verbatim>\<open>..\<close>; a tree is well formed when all its names are.\<close>

definition listed :: "node \<Rightarrow> string \<Rightarrow> string list" where
  "listed fs p = (case os_listdir fs p of Inl e \<Rightarrow> [] | Inr names \<Rightarrow> names)"

definition valid_name :: "string \<Rightarrow> bool" where
  "valid_name f = (f \<noteq> [] \<and> CHR ''/'' \<notin> set f \<and> f \<noteq> ''.'' \<and> f \<noteq> ''..'')"

fun wf_node :: "node \<Rightarrow> bool" where
  "wf_node (File c) = True"
| "wf_node (Dir es) = list_all (\<lambda>e. valid_name (fst e) \<and> wf_node (snd e)) es"








definition show_index :: "index \<Rightarrow> string" where
  "show_index data = concat (map (\<lambda>x. x @ [CHR 0x0A]) (ids data))"

definition saved_fs :: node where
  "saved_fs =
     Dir [(''LibriSpeech'', Dir [(''README.TXT'', File ''LibriSpeech''),
       (''dev-clean'', Dir (dev_clean_entries @
          [(''master.pkl'', File (show_index corpus_index))]))])]"

definition indexed_fs :: node where
  "indexed_fs =
     Dir [(''LibriSpeech'', Dir [(''README.TXT'', File ''LibriSpeech''),
       (''keep.pkl'', File ''k''),
       (''dev-clean'', Dir (dev_clean_entries @
          [(''master.pkl'', File ''m''), (''ids.pkl'', File ''i'')])),
       (''test-clean'', Dir [(''61'', Dir [(''features.pkl'', File ''f'')])])])]"

definition swept_fs :: node where
  "swept_fs =
     Dir [(''LibriSpeech'', Dir [(''README.TXT'', File ''LibriSpeech''),
       (''keep.pkl'', File ''k''),
       (''dev-clean'', Dir dev_clean_entries),
       (''test-clean'', Dir [(''61'', Dir [(''features.pkl'', File ''f'')])])])]"

section \<open>Properties\<close>

subsection \<open>Splitting and joining\<close>

lemma re_split_space_nonempty: "re_split_space s \<noteq> []"
  by (induction s) (auto split: list.splits)

lemma re_split_space_token:
  "CHR '' '' \<notin> set u \<Longrightarrow> re_split_space (u @ CHR '' '' # t) = u # re_split_space t"
  by (induction u) (auto split: list.splits)

lemma re_split_space_plain: "CHR '' '' \<notin> set u \<Longrightarrow> re_split_space u = [u]"
  by (induction u) auto

lemma join_space_Cons:
  "ws \<noteq> [] \<Longrightarrow> join_space (w # ws) = w @ CHR '' '' # join_space ws"
  by (cases ws) auto

lemma join_space_split: "join_space (re_split_space t) = t"
proof (induction t)
  case Nil
  show ?case by simp
next
  case (Cons c t)
  show ?case
  proof (cases "c = CHR '' ''")
    case True
    with Cons show ?thesis
      by (simp add: join_space_Cons re_split_space_nonempty)
  next
    case False
    obtain w ws where sp: "re_split_space t = w # ws"
      using re_split_space_nonempty [of t] by (cases "re_split_space t") auto
    with Cons False show ?thesis
      by (cases ws) auto
  qed
qed

lemma line_transcription_token:
  "CHR '' '' \<notin> set u \<Longrightarrow> line_transcription (u @ '' '' @ t) = t"
  by (simp add: line_transcription_def re_split_space_token join_space_split)

lemma line_file_name_token:
  "CHR '' '' \<notin> set u \<Longrightarrow> line_file_name (u @ '' '' @ t) = u"
  by (simp add: line_file_name_def re_split_space_token)

lemma endswith_iff: "endswith s p \<longleftrightarrow> (\<exists>q. s = q @ p)"
proof
  assume "endswith s p"
  then have "s = take (length s - length p) s @ p"
    by (simp add: endswith_def) (metis append_take_drop_id)
  then show "\<exists>q. s = q @ p" ..
next
  assume "\<exists>q. s = q @ p"
  then show "endswith s p" by (auto simp: endswith_def)
qed

lemma endswith_path_join: "endswith f s \<Longrightarrow> endswith (path_join a f) s"
  by (auto simp: endswith_iff path_join_def)

lemma endswith_path_join_back:
  assumes "CHR ''/'' \<notin> set s" and "endswith (path_join d x) s"
  shows "endswith x s"
proof -
  have tail: "\<And>a q. a @ x = q @ s \<Longrightarrow> a = [] \<or> last a = CHR ''/'' \<Longrightarrow> endswith x s"
  proof -
    fix a q :: string
    assume e: "a @ x = q @ s" and a: "a = [] \<or> last a = CHR ''/''"
    from e consider u where "a = q @ u" "u @ x = s" | u where "a @ u = q" "x = u @ s"
      by (auto simp: append_eq_append_conv2)
    then show "endswith x s"
    proof cases
      case 1
      show ?thesis
      proof (cases "u = []")
        case True
        with 1 show ?thesis by (simp add: endswith_def)
      next
        case False
        with 1(1) a have "last u = CHR ''/''" by auto
        with False have "CHR ''/'' \<in> set u" by (metis last_in_set)
        with 1(2) assms(1) show ?thesis by auto
      qed
    next
      case 2
      then show ?thesis by (auto simp: endswith_def)
    qed
  qed
  from assms(2) obtain q where q: "path_join d x = q @ s"
    by (auto simp: endswith_iff)
  show ?thesis
  proof (cases "startswith x ''/''")
    case True
    with assms(2) show ?thesis by (simp add: path_join_def)
  next
    case False
    show ?thesis
    proof (cases "d = [] \<or> endswith d ''/''")
      case True
      with False have p: "path_join d x = d @ x" by (simp add: path_join_def)
      from True have "d = [] \<or> last d = CHR ''/''"
        by (auto simp: endswith_iff)
      with tail [of d q] p q show ?thesis by simp
    next
      case n: False
      with False have p: "path_join d x = (d @ ''/'') @ x" by (simp add: path_join_def)
      with tail [of "d @ ''/''" q] q show ?thesis by simp
    qed
  qed
qed

subsection \<open>Well-formed UTF-8 and white space\<close>

lemma byte_at_append: "k \<le> length a \<Longrightarrow> i < k \<Longrightarrow> byte_at (a @ b) i = byte_at a i"
  by (simp add: byte_at_def nth_append)

lemma byte_at_out: "length a \<le> i \<Longrightarrow> byte_at a i = 256"
  by (simp add: byte_at_def)

lemma utf8_len_le: "utf8_len a \<le> length a"
proof -
  consider "length a = 0" | "length a = 1" | "length a = 2" | "length a = 3" | "4 \<le> length a"
    by linarith
  then show ?thesis
  proof cases
    case 1 then show ?thesis by (simp add: utf8_len_def byte_at_def cont_def)
  next
    case 2 then show ?thesis by (simp add: utf8_len_def byte_at_def cont_def Let_def)
  next
    case 3 then show ?thesis by (simp add: utf8_len_def byte_at_def cont_def Let_def)
  next
    case 4 then show ?thesis by (simp add: utf8_len_def byte_at_def cont_def Let_def)
  next
    case 5 then show ?thesis by (simp add: utf8_len_def Let_def)
  qed
qed

lemma utf8_len_cases: "utf8_len a \<in> {0, 1, 2, 3, 4}"
  by (simp add: utf8_len_def Let_def)

lemma utf8_len_append:
  assumes "utf8_len a \<noteq> 0"
  shows "utf8_len (a @ b) = utf8_len a"
proof -
  from utf8_len_le [of a] have le: "utf8_len a \<le> length a" .
  from utf8_len_cases [of a] assms
  consider "utf8_len a = 1" | "utf8_len a = 2" | "utf8_len a = 3" | "utf8_len a = 4"
    by auto
  then show ?thesis
  proof cases
    case 1
    with le have b: "byte_at (a @ b) 0 = byte_at a 0"
      by (simp add: byte_at_append [of 1])
    from 1 have "byte_at a 0 < 128"
      by (auto simp: utf8_len_def Let_def split: if_splits)
    with b 1 show ?thesis by (simp add: utf8_len_def Let_def)
  next
    case 2
    with le have b: "byte_at (a @ b) 0 = byte_at a 0" "byte_at (a @ b) 1 = byte_at a 1"
      by (simp_all add: byte_at_append [of 2])
    from 2 have "\<not> byte_at a 0 < 128 \<and> 194 \<le> byte_at a 0 \<and> byte_at a 0 \<le> 223 \<and> cont (byte_at a 1)"
      by (auto simp: utf8_len_def Let_def split: if_splits)
    with b 2 show ?thesis by (simp add: utf8_len_def Let_def)
  next
    case 3
    with le have b: "byte_at (a @ b) 0 = byte_at a 0" "byte_at (a @ b) 1 = byte_at a 1"
      "byte_at (a @ b) 2 = byte_at a 2"
      by (simp_all add: byte_at_append [of 3])
    from 3 show ?thesis
      unfolding utf8_len_def Let_def b
      by (simp split: if_splits)
  next
    case 4
    with le have b: "byte_at (a @ b) 0 = byte_at a 0" "byte_at (a @ b) 1 = byte_at a 1"
      "byte_at (a @ b) 2 = byte_at a 2" "byte_at (a @ b) 3 = byte_at a 3"
      by (simp_all add: byte_at_append [of 4])
    show ?thesis
      unfolding utf8_len_def Let_def b ..
  qed
qed

lemma utf8_chars_append:
  "utf8_chars a = Some xs \<Longrightarrow> utf8_chars (a @ b) = map_option ((@) xs) (utf8_chars b)"
proof (induction a arbitrary: xs rule: utf8_chars.induct)
  case (1 s)
  show ?case
  proof (cases "s = []")
    case True
    with "1.prems" have "xs = []" by (simp add: utf8_chars.simps [of "[]"])
    with True show ?thesis by (cases "utf8_chars b") simp_all
  next
    case False
    with "1.prems" have k: "utf8_len s \<noteq> 0"
      by (auto simp: utf8_chars.simps [of s] split: if_splits)
    from False k "1.prems" obtain ys where
      ys: "utf8_chars (drop (utf8_len s) s) = Some ys"
      and xs: "xs = take (utf8_len s) s # ys"
      by (auto simp: utf8_chars.simps [of s])
    from utf8_len_le [of s] have le: "utf8_len s \<le> length s" .
    have ka: "utf8_len (s @ b) = utf8_len s" by (rule utf8_len_append [OF k])
    from "1.IH" [OF False k ys]
    have ih: "utf8_chars (drop (utf8_len s) s @ b) = map_option ((@) ys) (utf8_chars b)" .
    have "utf8_chars (s @ b) =
        map_option ((#) (take (utf8_len s) s)) (utf8_chars (drop (utf8_len s) s @ b))"
      using False k le by (simp add: utf8_chars.simps [of "s @ b"] ka)
    with ih xs show ?thesis
      by (cases "utf8_chars b") simp_all
  qed
qed

lemma concat_utf8_chars: "utf8_chars s = Some cs \<Longrightarrow> concat cs = s"
proof (induction s arbitrary: cs rule: utf8_chars.induct)
  case (1 s)
  show ?case
  proof (cases "s = []")
    case True
    with "1.prems" show ?thesis by (simp add: utf8_chars.simps [of "[]"])
  next
    case False
    with "1.prems" have k: "utf8_len s \<noteq> 0"
      by (auto simp: utf8_chars.simps [of s] split: if_splits)
    from False k "1.prems" obtain ys where
      ys: "utf8_chars (drop (utf8_len s) s) = Some ys"
      and cs: "cs = take (utf8_len s) s # ys"
      by (auto simp: utf8_chars.simps [of s])
    from "1.IH" [OF False k ys] cs show ?thesis by simp
  qed
qed

lemma utf8_chars_space: "utf8_chars '' '' = Some ['' '']"
  by code_simp

lemma isspace_space: "isspace '' ''"
  by code_simp

lemma str_strip_line:
  assumes "us \<noteq> []" "\<forall>c \<in> set us. \<not> isspace c"
    and "tx = [] \<or> \<not> isspace (last tx)"
    and "\<forall>c \<in> set ws. isspace c" and "isspace sp"
  shows "str_strip (us @ [sp] @ tx @ ws) = (if tx = [] then us else us @ [sp] @ tx)"
proof -
  from assms(1) obtain u us' where us: "us = u # us'" by (cases us) auto
  with assms(2) have u: "\<not> isspace u" by simp
  have front: "dropWhile isspace (us @ [sp] @ tx @ ws) = us @ [sp] @ tx @ ws"
    by (simp add: us u)
  from assms(1,2) have lu: "\<not> isspace (last us)" by simp
  have bk: "dropWhile isspace (rev ws @ rev tx @ [sp] @ rev us)
      = dropWhile isspace (rev tx @ [sp] @ rev us)"
    by (rule dropWhile_append2) (use assms(4) in simp)
  have ru: "rev us = last us # rev (butlast us)"
    using assms(1) by (metis append_butlast_last_id rev.simps(2) rev_append rev_rev_ident rev_singleton_conv append_Cons append_Nil)
  show ?thesis
  proof (cases "tx = []")
    case True
    have "dropWhile isspace ([sp] @ rev us) = rev us"
      using assms(5) lu by (simp add: ru)
    with True front bk show ?thesis
      by (simp add: str_strip_def)
  next
    case False
    with assms(3) have lt: "\<not> isspace (last tx)" by simp
    have rt: "rev tx = last tx # rev (butlast tx)"
      using False by (metis append_butlast_last_id rev.simps(2) rev_append rev_rev_ident rev_singleton_conv append_Cons append_Nil)
    have "dropWhile isspace (rev tx @ [sp] @ rev us) = rev tx @ [sp] @ rev us"
      using lt by (simp add: rt)
    with False front bk show ?thesis
      by (simp add: str_strip_def)
  qed
qed

lemma decode_strip_line:
  assumes "token uid" "rstripped text" "blank eol"
  shows "decode_strip (uid @ '' '' @ text @ eol)
           = Inr (if text = [] then uid else uid @ '' '' @ text)"
proof -
  from assms(1) obtain us where us: "utf8_chars uid = Some us" "us \<noteq> []"
    "\<forall>c \<in> set us. \<not> isspace c"
    by (auto simp: token_def list_all_iff split: option.splits)
  from assms(2) obtain tx where tx: "utf8_chars text = Some tx"
    "tx = [] \<or> \<not> isspace (last tx)"
    by (auto simp: rstripped_def split: option.splits)
  from assms(3) obtain ws where ws: "utf8_chars eol = Some ws" "\<forall>c \<in> set ws. isspace c"
    by (auto simp: blank_def list_all_iff split: option.splits)
  have "utf8_chars (text @ eol) = Some (tx @ ws)"
    by (simp add: utf8_chars_append [OF tx(1)] ws(1))
  with utf8_chars_append [OF utf8_chars_space, of "text @ eol"]
  have "utf8_chars ('' '' @ text @ eol) = Some (['' ''] @ tx @ ws)"
    by simp
  with utf8_chars_append [OF us(1), of "'' '' @ text @ eol"]
  have all: "utf8_chars (uid @ '' '' @ text @ eol) = Some (us @ ['' ''] @ tx @ ws)"
    by simp
  have cu: "concat us = uid" by (rule concat_utf8_chars [OF us(1)])
  have ct: "concat tx = text" by (rule concat_utf8_chars [OF tx(1)])
  have te: "tx = [] \<longleftrightarrow> text = []"
  proof
    assume "tx = []" with ct show "text = []" by simp
  next
    assume "text = []"
    with tx(1) show "tx = []" by (simp add: utf8_chars.simps [of "[]"])
  qed
  from str_strip_line [OF us(2,3) tx(2) ws(2) isspace_space]
  have "concat (str_strip (us @ ['' ''] @ tx @ ws))
      = (if text = [] then uid else uid @ '' '' @ text)"
    by (simp add: te cu ct)
  with all show ?thesis
    by (simp add: decode_strip_def del: append.simps)
qed

subsection \<open>The parser in closed form\<close>

lemma map_result_length:
  "map_result f xs = Inr ys \<Longrightarrow> length ys = length xs"
  by (induction xs arbitrary: ys) (auto split: sum.splits)

lemma map_result_nth:
  "map_result f xs = Inr ys \<Longrightarrow> i < length xs \<Longrightarrow> f (xs ! i) = Inr (ys ! i)"
proof (induction xs arbitrary: ys i)
  case Nil
  then show ?case by simp
next
  case (Cons x xs)
  then show ?case
    by (cases i) (auto split: sum.splits)
qed

lemma map_result_Inr:
  "\<forall>x \<in> set xs. \<exists>y. f x = Inr y \<Longrightarrow> \<exists>ys. map_result f xs = Inr ys"
  by (induction xs) (auto split: sum.splits)

lemma map_result_Inl:
  "map_result f xs = Inl e \<Longrightarrow> \<exists>x \<in> set xs. f x = Inl e"
  by (induction xs) (auto split: sum.splits)

lemma decode_strip_cases:
  "decode_strip x = Inl e \<Longrightarrow> e = UnicodeDecodeError \<and> utf8_chars x = None"
  by (auto simp: decode_strip_def split: option.splits)

lemma decode_strip_Inr:
  "utf8_chars x \<noteq> None \<Longrightarrow> \<exists>y. decode_strip x = Inr y"
  by (auto simp: decode_strip_def split: option.splits)

lemma parse_lines_closed:
  "parse_lines d ls (ts, fl) =
     Inr (ts @ map line_transcription ls,
          fl @ map (\<lambda>l. path_join d (line_file_name l @ ''.flac'')) ls)"
proof (induction ls arbitrary: ts fl)
  case Nil
  show ?case by simp
next
  case (Cons l ls)
  obtain w ws where sp: "re_split_space l = w # ws"
    using re_split_space_nonempty [of l] by (cases "re_split_space l") auto
  show ?case
    by (simp add: sp Cons.IH line_file_name_def line_transcription_def)
qed

lemma transcriptions_and_flac_closed:
  "stripped_lines fs p = Inr ls \<Longrightarrow>
   transcriptions_and_flac fs p =
     Inr (map line_transcription ls,
          map (\<lambda>l. path_join (dirname p) (line_file_name l @ ''.flac'')) ls)"
  by (simp add: transcriptions_and_flac_def parse_lines_closed)

lemma transcriptions_and_flac_Inl:
  "stripped_lines fs p = Inl e \<Longrightarrow> transcriptions_and_flac fs p = Inl e"
  by (simp add: transcriptions_and_flac_def)

lemma transcriptions_and_flac_lengths:
  "transcriptions_and_flac fs p = Inr (t, flacs) \<Longrightarrow> length t = length flacs"
proof (cases "stripped_lines fs p")
  case (Inl e)
  assume "transcriptions_and_flac fs p = Inr (t, flacs)"
  with transcriptions_and_flac_Inl [OF Inl] show ?thesis by simp
next
  case (Inr ls)
  assume "transcriptions_and_flac fs p = Inr (t, flacs)"
  with transcriptions_and_flac_closed [OF Inr] show ?thesis by auto
qed

subsection \<open>The index has three sequences of one length\<close>

lemma txt_loop_lengths:
  "txt_loop fs v txts acc = Inr idx \<Longrightarrow>
   length (paths acc) = length (transcriptions acc) \<Longrightarrow>
   length (transcriptions acc) = length (ids acc) \<Longrightarrow>
   length (paths idx) = length (transcriptions idx) \<and>
   length (transcriptions idx) = length (ids idx)"
proof (induction txts arbitrary: acc)
  case Nil
  then show ?case by simp
next
  case (Cons x txts)
  from Cons.prems(1) obtain t flacs where
    p: "transcriptions_and_flac fs x = Inr (t, flacs)"
    by (cases "transcriptions_and_flac fs x") auto
  from transcriptions_and_flac_lengths [OF p] have len: "length t = length flacs" .
  let ?acc = "\<lparr>paths = paths acc @ flacs, transcriptions = transcriptions acc @ t,
                ids = ids acc @ replicate (length flacs) v\<rparr>"
  from Cons.prems(1) p have r: "txt_loop fs v txts ?acc = Inr idx" by simp
  show ?case
    by (rule Cons.IH [OF r]) (use Cons.prems(2,3) len in simp_all)
qed

lemma id_loop_lengths:
  "id_loop fs d acc = Inr idx \<Longrightarrow>
   length (paths acc) = length (transcriptions acc) \<Longrightarrow>
   length (transcriptions acc) = length (ids acc) \<Longrightarrow>
   length (paths idx) = length (transcriptions idx) \<and>
   length (transcriptions idx) = length (ids idx)"
proof (induction d arbitrary: acc)
  case Nil
  then show ?case by simp
next
  case (Cons kv d)
  obtain v txts where kv: "kv = (v, txts)" by (cases kv)
  from Cons.prems(1) kv obtain acc' where
    s: "txt_loop fs v txts acc = Inr acc'" and r: "id_loop fs d acc' = Inr idx"
    by (cases "txt_loop fs v txts acc") auto
  from txt_loop_lengths [OF s Cons.prems(2,3)] Cons.IH [OF r] show ?case by simp
qed

text \<open>C1. Whenever \<^verbatim>\<open>flacpath_transcription_id\<close> returns an index, its paths, its
  transcriptions and its ids have the same length.\<close>

theorem index_lengths_equal:
  "flacpath_transcription_id fs folder_path = Inr idx \<Longrightarrow>
   length (paths idx) = length (transcriptions idx) \<and>
   length (transcriptions idx) = length (ids idx)"
  unfolding flacpath_transcription_id_def
  by (cases "voice_txt_dict_from_path fs folder_path")
     (auto dest: id_loop_lengths)

theorem index_lengths_equal_witness:
  "flacpath_transcription_id corpus_fs ''LibriSpeech/dev-clean'' = Inr corpus_index \<and>
   length (paths corpus_index) = length (transcriptions corpus_index) \<and>
   length (transcriptions corpus_index) = length (ids corpus_index)"
proof -
  have h: "flacpath_transcription_id corpus_fs ''LibriSpeech/dev-clean'' = Inr corpus_index"
    by code_simp
  from index_lengths_equal [OF h] h show ?thesis by (intro conjI) simp_all
qed

subsection \<open>What the parser makes of a line\<close>

text \<open>C2. Let every line of the transcript file be well-formed UTF-8 and let line
  \<open>i\<close> of the file be an utterance id, one space, a text and trailing white space with
  the line terminator. Then the parser returns one entry per line of the file, the text
  as transcription \<open>i\<close> and the transcript's directory joined with the id and
  \<^verbatim>\<open>.flac\<close> as path \<open>i\<close>.\<close>

theorem parser_line_form:
  assumes "open_rb fs p = Inr content"
    and "\<forall>l \<in> set (readlines content). utf8_chars l \<noteq> None"
    and "i < length (readlines content)"
    and "readlines content ! i = uid @ '' '' @ text @ eol"
    and "token uid" and "rstripped text" and "blank eol"
  shows "\<exists>ts fl. transcriptions_and_flac fs p = Inr (ts, fl) \<and>
           length ts = length (readlines content) \<and>
           length fl = length (readlines content) \<and>
           ts ! i = text \<and> fl ! i = path_join (dirname p) (uid @ ''.flac'')"
proof -
  from assms(2) have "\<forall>l \<in> set (readlines content). \<exists>y. decode_strip l = Inr y"
    using decode_strip_Inr by blast
  from map_result_Inr [OF this] obtain ls where
    m: "map_result decode_strip (readlines content) = Inr ls" ..
  with assms(1) have sl: "stripped_lines fs p = Inr ls"
    by (simp add: stripped_lines_def)
  have len: "length ls = length (readlines content)"
    by (rule map_result_length [OF m])
  from assms(5) have nsp: "CHR '' '' \<notin> set uid"
    by (auto simp: token_def split: option.splits)
  from map_result_nth [OF m assms(3)] assms(4)
  have "decode_strip (uid @ '' '' @ text @ eol) = Inr (ls ! i)" by simp
  with decode_strip_line [OF assms(5,6,7)]
  have li: "ls ! i = (if text = [] then uid else uid @ '' '' @ text)" by simp
  have t: "line_transcription (ls ! i) = text"
  proof (cases "text = []")
    case True
    with li nsp show ?thesis
      by (simp add: line_transcription_def re_split_space_plain)
  next
    case False
    with li nsp show ?thesis
      by (simp add: line_transcription_token del: append.simps)
  qed
  have f: "line_file_name (ls ! i) = uid"
  proof (cases "text = []")
    case True
    with li nsp show ?thesis
      by (simp add: line_file_name_def re_split_space_plain)
  next
    case False
    with li nsp show ?thesis
      by (simp add: line_file_name_token del: append.simps)
  qed
  from transcriptions_and_flac_closed [OF sl] len assms(3) t f show ?thesis
    by simp
qed

theorem parser_line_form_witness:
  "open_rb hello_fs ''LibriSpeech/dev-clean/1234/1234.trans.txt'' = Inr hello_content \<and>
   list_all (\<lambda>l. utf8_chars l \<noteq> None) (readlines hello_content) \<and>
   (1::nat) < length (readlines hello_content) \<and>
   readlines hello_content ! 1 = ''1234-0001'' @ '' '' @ ''HELLO WORLD'' @ [CHR 0x0A] \<and>
   token ''1234-0001'' \<and> rstripped ''HELLO WORLD'' \<and> blank [CHR 0x0A] \<and>
   transcriptions_and_flac hello_fs ''LibriSpeech/dev-clean/1234/1234.trans.txt''
     = Inr ([''GOOD MORNING'', ''HELLO WORLD''],
            [''LibriSpeech/dev-clean/1234/1234-0000.flac'',
             ''LibriSpeech/dev-clean/1234/1234-0001.flac'']) \<and>
   [''GOOD MORNING'', ''HELLO WORLD''] ! 1 = ''HELLO WORLD'' \<and>
   [''LibriSpeech/dev-clean/1234/1234-0000.flac'',
    ''LibriSpeech/dev-clean/1234/1234-0001.flac''] ! 1
     = path_join (dirname ''LibriSpeech/dev-clean/1234/1234.trans.txt'') (''1234-0001'' @ ''.flac'')"
proof -
  let ?p = "''LibriSpeech/dev-clean/1234/1234.trans.txt''"
  have o: "open_rb hello_fs ?p = Inr hello_content"
    by code_simp
  have v: "list_all (\<lambda>l. utf8_chars l \<noteq> None) (readlines hello_content)"
    by code_simp
  then have v': "\<forall>l \<in> set (readlines hello_content). utf8_chars l \<noteq> None"
    by (simp only: list_all_iff)
  have i: "(1::nat) < length (readlines hello_content)"
    by code_simp
  have l: "readlines hello_content ! 1 = ''1234-0001'' @ '' '' @ ''HELLO WORLD'' @ [CHR 0x0A]"
    by code_simp
  have tk: "token ''1234-0001''" by code_simp
  have rs: "rstripped ''HELLO WORLD''" by code_simp
  have bl: "blank [CHR 0x0A]" by code_simp
  have r: "transcriptions_and_flac hello_fs ?p
     = Inr ([''GOOD MORNING'', ''HELLO WORLD''],
            [''LibriSpeech/dev-clean/1234/1234-0000.flac'',
             ''LibriSpeech/dev-clean/1234/1234-0001.flac''])"
    by code_simp
  from parser_line_form [OF o v' i l tk rs bl] r
  have a: "[''GOOD MORNING'', ''HELLO WORLD''] ! 1 = ''HELLO WORLD''"
    and b: "[''LibriSpeech/dev-clean/1234/1234-0000.flac'',
    ''LibriSpeech/dev-clean/1234/1234-0001.flac''] ! 1
     = path_join (dirname ?p) (''1234-0001'' @ ''.flac'')"
    by auto
  from o v i l tk rs bl r a b show ?thesis
    by - (intro conjI, assumption+)
qed

text \<open>C3, as stated, fails: the empty second line of the transcript of
  \<open>blank_fs\<close> contributes the transcription \<^verbatim>\<open>""\<close> and the path
  \<^verbatim>\<open>d/.flac\<close>.\<close>

theorem empty_line_counterexample:
  "open_rb blank_fs ''d/t.txt'' = Inr (''x A'' @ [CHR 0x0A, CHR 0x0A] @ ''y B'' @ [CHR 0x0A]) \<and>
   readlines (''x A'' @ [CHR 0x0A, CHR 0x0A] @ ''y B'' @ [CHR 0x0A])
     = [''x A'' @ [CHR 0x0A], [CHR 0x0A], ''y B'' @ [CHR 0x0A]] \<and>
   decode_strip [CHR 0x0A] = Inr [] \<and>
   transcriptions_and_flac blank_fs ''d/t.txt''
     = Inr ([''A'', [], ''B''], [''d/x.flac'', ''d/.flac'', ''d/y.flac''])"
  by code_simp

text \<open>C3, amended. The parser returns one entry per line of the file, the empty ones
  included: a line that is empty once stripped gives the empty transcription and the
  path of the directory joined with \<^verbatim>\<open>.flac\<close>.\<close>

theorem parser_entry_per_line:
  assumes "open_rb fs p = Inr content"
    and "transcriptions_and_flac fs p = Inr (ts, fl)"
  shows "length ts = length (readlines content) \<and>
         length fl = length (readlines content) \<and>
         (\<forall>i < length (readlines content).
            decode_strip (readlines content ! i) = Inr [] \<longrightarrow>
            ts ! i = [] \<and> fl ! i = path_join (dirname p) ''.flac'')"
proof -
  from assms obtain ls where
    m: "map_result decode_strip (readlines content) = Inr ls"
    and sl: "stripped_lines fs p = Inr ls"
    by (cases "map_result decode_strip (readlines content)")
       (auto simp: transcriptions_and_flac_def stripped_lines_def)
  from transcriptions_and_flac_closed [OF sl] assms(2)
  have ts: "ts = map line_transcription ls"
    and fl: "fl = map (\<lambda>l. path_join (dirname p) (line_file_name l @ ''.flac'')) ls"
    by simp_all
  have len: "length ls = length (readlines content)"
    by (rule map_result_length [OF m])
  have e: "line_transcription [] = []" "line_file_name [] = []"
    by (simp_all add: line_transcription_def line_file_name_def)
  show ?thesis
  proof (intro conjI allI impI)
    show "length ts = length (readlines content)" by (simp add: ts len)
    show "length fl = length (readlines content)" by (simp add: fl len)
  next
    fix i
    assume i: "i < length (readlines content)"
      and d: "decode_strip (readlines content ! i) = Inr []"
    from map_result_nth [OF m i] d have "ls ! i = []" by simp
    with i len show "ts ! i = []" by (simp add: ts e)
  next
    fix i
    assume i: "i < length (readlines content)"
      and d: "decode_strip (readlines content ! i) = Inr []"
    from map_result_nth [OF m i] d have "ls ! i = []" by simp
    with i len show "fl ! i = path_join (dirname p) ''.flac''" by (simp add: fl e)
  qed
qed

theorem parser_entry_per_line_witness:
  "open_rb blank_fs ''d/t.txt'' = Inr blank_content \<and>
   transcriptions_and_flac blank_fs ''d/t.txt''
     = Inr ([''A'', [], ''B''], [''d/x.flac'', ''d/.flac'', ''d/y.flac'']) \<and>
   length [''A'', [], ''B''] = length (readlines blank_content) \<and>
   (1::nat) < length (readlines blank_content) \<and>
   decode_strip (readlines blank_content ! 1) = Inr [] \<and>
   [''A'', [], ''B''] ! 1 = [] \<and>
   [''d/x.flac'', ''d/.flac'', ''d/y.flac''] ! 1 = path_join (dirname ''d/t.txt'') ''.flac''"
proof -
  have o: "open_rb blank_fs ''d/t.txt'' = Inr blank_content"
    by code_simp
  have r: "transcriptions_and_flac blank_fs ''d/t.txt''
     = Inr ([''A'', [], ''B''], [''d/x.flac'', ''d/.flac'', ''d/y.flac''])"
    by code_simp
  have i: "(1::nat) < length (readlines blank_content)"
    by code_simp
  have d: "decode_strip (readlines blank_content ! 1) = Inr []"
    by code_simp
  have j: "[''d/x.flac'', ''d/.flac'', ''d/y.flac''] ! 1
      = path_join (dirname ''d/t.txt'') ''.flac''"
    by code_simp
  from parser_entry_per_line [OF o r]
  have l: "length [''A'', [], ''B''] = length (readlines blank_content)"
    by (rule conjunct1)
  from o r l i d j show ?thesis
    by (simp only: simp_thms nth_Cons_0 nth_Cons_Suc One_nat_def)
qed

text \<open>C4, as stated, fails: the second line of the transcript of \<open>spaces_fs\<close>
  holds no token, and the parser returns a result, with an entry for that line.\<close>

theorem no_token_line_counterexample:
  "open_rb spaces_fs ''d/t.txt'' = Inr (''A1 HI'' @ [CHR 0x0A] @ ''   '' @ [CHR 0x0D, CHR 0x0A]) \<and>
   stripped_lines spaces_fs ''d/t.txt'' = Inr [''A1 HI'', []] \<and>
   re_split_space [] = [[]] \<and>
   transcriptions_and_flac spaces_fs ''d/t.txt''
     = Inr ([''HI'', []], [''d/A1.flac'', ''d/.flac''])"
  by code_simp

text \<open>C4, amended. No line makes the parser fail by its shape: on a file that opens,
  the parser returns one entry per line when every line is well-formed UTF-8, and
  raises UnicodeDecodeError otherwise.\<close>

theorem parser_fails_only_decoding:
  assumes "open_rb fs p = Inr content"
  shows "if \<forall>l \<in> set (readlines content). utf8_chars l \<noteq> None
         then \<exists>ts fl. transcriptions_and_flac fs p = Inr (ts, fl) \<and>
                length ts = length (readlines content) \<and>
                length fl = length (readlines content)
         else transcriptions_and_flac fs p = Inl UnicodeDecodeError"
proof (cases "\<forall>l \<in> set (readlines content). utf8_chars l \<noteq> None")
  case True
  then have "\<forall>l \<in> set (readlines content). \<exists>y. decode_strip l = Inr y"
    using decode_strip_Inr by blast
  from map_result_Inr [OF this] obtain ls where
    m: "map_result decode_strip (readlines content) = Inr ls" ..
  with assms have sl: "stripped_lines fs p = Inr ls"
    by (simp add: stripped_lines_def)
  from map_result_length [OF m] transcriptions_and_flac_closed [OF sl] True
  show ?thesis by simp
next
  case False
  then obtain l where l: "l \<in> set (readlines content)" "utf8_chars l = None"
    by blast
  have "\<not> (\<exists>ls. map_result decode_strip (readlines content) = Inr ls)"
  proof
    assume "\<exists>ls. map_result decode_strip (readlines content) = Inr ls"
    then obtain ls where m: "map_result decode_strip (readlines content) = Inr ls" ..
    from l(1) obtain i where i: "i < length (readlines content)" "readlines content ! i = l"
      by (auto simp: in_set_conv_nth)
    from map_result_nth [OF m i(1)] i(2) l(2) show False
      by (simp add: decode_strip_def)
  qed
  then obtain e where m: "map_result decode_strip (readlines content) = Inl e"
    by (cases "map_result decode_strip (readlines content)") auto
  from map_result_Inl [OF m] have "e = UnicodeDecodeError"
    by (blast dest: decode_strip_cases)
  with m assms have "stripped_lines fs p = Inl UnicodeDecodeError"
    by (simp add: stripped_lines_def)
  from transcriptions_and_flac_Inl [OF this] False show ?thesis by simp
qed

theorem parser_fails_only_decoding_witness:
  "open_rb spaces_fs ''d/t.txt'' = Inr (''A1 HI'' @ [CHR 0x0A] @ ''   '' @ [CHR 0x0D, CHR 0x0A]) \<and>
   list_all (\<lambda>l. utf8_chars l \<noteq> None)
     (readlines (''A1 HI'' @ [CHR 0x0A] @ ''   '' @ [CHR 0x0D, CHR 0x0A])) \<and>
   (\<exists>ts fl. transcriptions_and_flac spaces_fs ''d/t.txt'' = Inr (ts, fl) \<and> length ts = 2) \<and>
   open_rb bad_fs ''d/t.txt'' = Inr (''A1 HI'' @ [CHR 0xC0, CHR 0x0A]) \<and>
   \<not> (\<forall>l \<in> set (readlines (''A1 HI'' @ [CHR 0xC0, CHR 0x0A])). utf8_chars l \<noteq> None) \<and>
   transcriptions_and_flac bad_fs ''d/t.txt'' = Inl UnicodeDecodeError"
proof -
  have o: "open_rb spaces_fs ''d/t.txt''
      = Inr (''A1 HI'' @ [CHR 0x0A] @ ''   '' @ [CHR 0x0D, CHR 0x0A])"
    by code_simp
  have v: "\<forall>l \<in> set (readlines (''A1 HI'' @ [CHR 0x0A] @ ''   '' @ [CHR 0x0D, CHR 0x0A])).
      utf8_chars l \<noteq> None"
    by code_simp
  have n: "length (readlines (''A1 HI'' @ [CHR 0x0A] @ ''   '' @ [CHR 0x0D, CHR 0x0A])) = 2"
    by code_simp
  have o': "open_rb bad_fs ''d/t.txt'' = Inr (''A1 HI'' @ [CHR 0xC0, CHR 0x0A])"
    by code_simp
  have v': "\<not> (\<forall>l \<in> set (readlines (''A1 HI'' @ [CHR 0xC0, CHR 0x0A])). utf8_chars l \<noteq> None)"
    by code_simp
  from parser_fails_only_decoding [OF o] v n
  have a: "\<exists>ts fl. transcriptions_and_flac spaces_fs ''d/t.txt'' = Inr (ts, fl) \<and> length ts = 2"
    by auto
  from parser_fails_only_decoding [OF o'] v'
  have b: "transcriptions_and_flac bad_fs ''d/t.txt'' = Inl UnicodeDecodeError"
    by (simp only: if_False)
  from v have w: "list_all (\<lambda>l. utf8_chars l \<noteq> None)
      (readlines (''A1 HI'' @ [CHR 0x0A] @ ''   '' @ [CHR 0x0D, CHR 0x0A]))"
    by (simp only: list_all_iff)
  from o w a o' v' b show ?thesis
    by - (intro conjI, assumption+)
qed

subsection \<open>Grouping by first occurrence\<close>

lemma set_first_occ: "set (first_occ xs) = set xs"
  by (induction xs) auto

lemma distinct_first_occ: "distinct (first_occ xs)"
  by (induction xs) (auto simp: set_first_occ)

lemma first_occ_snoc:
  "first_occ (xs @ [g]) = (if g \<in> set xs then first_occ xs else first_occ xs @ [g])"
  by (induction xs) (auto simp: set_first_occ)

lemma keys_dict_add:
  "map fst (dict_add d g t) = (if g \<in> set (map fst d) then map fst d else map fst d @ [g])"
  by (induction d g t rule: dict_add.induct) auto

lemma map_of_dict_add:
  "map_of (dict_add d g t) =
     (map_of d)(g \<mapsto> (case map_of d g of None \<Rightarrow> [t] | Some vs \<Rightarrow> vs @ [t]))"
  by (induction d g t rule: dict_add.induct) (auto simp: fun_eq_iff)

lemma keys_grouped: "map fst (foldl group_add [] ps) = first_occ (map fst ps)"
proof (induction ps rule: rev_induct)
  case Nil
  show ?case by simp
next
  case (snoc p ps)
  obtain g t where p: "p = (g, t)" by (cases p)
  have "set (map fst (foldl group_add [] ps)) = fst ` set ps"
    by (simp add: snoc.IH set_first_occ)
  then show ?case
    by (simp add: p keys_dict_add first_occ_snoc snoc.IH)
qed

lemma map_of_grouped:
  "map_of (foldl group_add [] ps) g =
     (if g \<in> fst ` set ps then Some (map snd (filter (\<lambda>p. fst p = g) ps)) else None)"
proof (induction ps rule: rev_induct)
  case Nil
  show ?case by simp
next
  case (snoc p ps)
  obtain k t where p: "p = (k, t)" by (cases p)
  have none: "g \<notin> fst ` set ps \<Longrightarrow> filter (\<lambda>p. fst p = g) ps = []"
    by (auto simp: filter_empty_conv)
  show ?case
    by (cases "k = g")
       (auto simp: p map_of_dict_add snoc.IH none)
qed

lemma takeWhile_filter_commute:
  "\<forall>y. \<not> Q y \<longrightarrow> P y \<Longrightarrow> takeWhile P (filter Q ys) = filter Q (takeWhile P ys)"
  by (induction ys) auto

lemma takeWhile_first_occ:
  "set (takeWhile (\<lambda>g. g \<noteq> b) (first_occ gs)) = set (takeWhile (\<lambda>g. g \<noteq> b) gs)"
proof (induction gs)
  case Nil
  show ?case by simp
next
  case (Cons x gs)
  show ?case
  proof (cases "x = b")
    case True
    then show ?thesis by simp
  next
    case False
    then have c: "takeWhile (\<lambda>g. g \<noteq> b) (filter (\<lambda>y. y \<noteq> x) (first_occ gs)) =
        filter (\<lambda>y. y \<noteq> x) (takeWhile (\<lambda>g. g \<noteq> b) (first_occ gs))"
      by (intro takeWhile_filter_commute) auto
    from False show ?thesis
      by (auto simp: c Cons.IH)
  qed
qed

subsection \<open>The walker in closed form\<close>

lemma voice_loop_error: "voice_loop items d = Inl e \<Longrightarrow> e = IndexError"
proof (induction items arbitrary: d)
  case Nil
  then show ?case by simp
next
  case (Cons item items)
  obtain dir subs files where item: "item = (dir, subs, files)" by (cases item)
  from Cons.prems show ?case
    unfolding item by (auto split: if_splits list.splits dest: Cons.IH)
qed

lemma voice_loop_raises:
  "\<exists>item \<in> set items. is_leaf item \<and> txt_files item = [] \<Longrightarrow>
   voice_loop items d = Inl IndexError"
proof (induction items arbitrary: d)
  case Nil
  then show ?case by simp
next
  case (Cons item items)
  obtain dir subs files where item: "item = (dir, subs, files)" by (cases item)
  show ?case
  proof (cases "is_leaf item \<and> txt_files item = []")
    case True
    then show ?thesis
      unfolding item by (simp add: is_leaf_def txt_files_def)
  next
    case False
    with Cons.prems have
      "\<exists>item \<in> set items. is_leaf item \<and> txt_files item = []" by auto
    from Cons.IH [OF this] show ?thesis
      unfolding item by (simp split: list.splits)
  qed
qed

lemma voice_loop_returns:
  "\<forall>item \<in> set items. is_leaf item \<longrightarrow> txt_files item \<noteq> [] \<Longrightarrow>
   voice_loop items d = Inr (foldl group_add d (map selection (leaves items)))"
proof (induction items arbitrary: d)
  case Nil
  show ?case by (simp add: leaves_def)
next
  case (Cons item items)
  obtain dir subs files where item: "item = (dir, subs, files)" by (cases item)
  from Cons.prems have rest:
    "\<forall>item \<in> set items. is_leaf item \<longrightarrow> txt_files item \<noteq> []" by simp
  show ?case
  proof (cases "is_leaf item")
    case True
    with Cons.prems obtain t ts where t: "txt_files item = t # ts"
      by (cases "txt_files item") auto
    from True t show ?thesis
      unfolding item
      by (simp add: Cons.IH [OF rest] leaves_def is_leaf_def txt_files_def
            selection_def)
  next
    case False
    then show ?thesis
      unfolding item by (simp add: Cons.IH [OF rest] leaves_def is_leaf_def)
  qed
qed

lemma selected_txt_hd:
  "txt_files item \<noteq> [] \<Longrightarrow> selected_txt item = [hd (txt_files item)]"
  by (cases "txt_files item") (simp_all add: selected_txt_def)

lemma concat_selected_txt:
  "\<forall>item \<in> set xs. txt_files item \<noteq> [] \<Longrightarrow>
   concat (map selected_txt xs) = map (\<lambda>item. hd (txt_files item)) xs"
  by (induction xs) (simp_all add: selected_txt_hd)

lemma selection_filter:
  "map snd (filter (\<lambda>p. fst p = g) (map selection xs)) =
   map (\<lambda>item. hd (txt_files item)) (filter (\<lambda>item. basename (fst item) = g) xs)"
  by (induction xs) (simp_all add: selection_def)

lemma walker_dict:
  assumes "voice_txt_dict_from_path fs p = Inr d"
  shows "(\<forall>item \<in> set (leaves (os_walk fs p)). txt_files item \<noteq> []) \<and>
         d = foldl group_add [] (map selection (leaves (os_walk fs p)))"
proof -
  have ne: "\<forall>item \<in> set (os_walk fs p). is_leaf item \<longrightarrow> txt_files item \<noteq> []"
  proof (rule ccontr)
    assume "\<not> ?thesis"
    then have "\<exists>item \<in> set (os_walk fs p). is_leaf item \<and> txt_files item = []"
      by blast
    from voice_loop_raises [OF this] assms show False
      by (simp add: voice_txt_dict_from_path_def)
  qed
  from voice_loop_returns [OF ne] assms
  have "d = foldl group_add [] (map selection (leaves (os_walk fs p)))"
    by (simp add: voice_txt_dict_from_path_def)
  with ne show ?thesis by (simp add: leaves_def)
qed

lemma walker_keys:
  assumes "voice_txt_dict_from_path fs p = Inr d"
  shows "map fst d = first_occ (map (\<lambda>item. basename (fst item)) (leaves (os_walk fs p)))"
proof -
  from walker_dict [OF assms]
  have "d = foldl group_add [] (map selection (leaves (os_walk fs p)))" by simp
  then show ?thesis
    by (simp add: keys_grouped selection_def comp_def)
qed

text \<open>What the walker returns: one file for every leaf directory, the first of the
  listing that passes the filter of line 93; the keys are the basenames of the leaves in
  order of first discovery, and the value of a key holds the files of the leaves of that
  basename, in discovery order.\<close>

lemma walker_selects_first:
  assumes "voice_txt_dict_from_path fs p = Inr d"
  shows "(\<forall>item \<in> set (leaves (os_walk fs p)). length (selected_txt item) = 1) \<and>
         map fst d = first_occ (map (\<lambda>item. basename (fst item)) (leaves (os_walk fs p))) \<and>
         (\<forall>g \<in> set (map fst d).
            map_of d g =
              Some (concat (map selected_txt
                 (filter (\<lambda>item. basename (fst item) = g) (leaves (os_walk fs p))))))"
proof -
  let ?L = "leaves (os_walk fs p)"
  from walker_dict [OF assms] have ne: "\<forall>item \<in> set ?L. txt_files item \<noteq> []"
    and d: "d = foldl group_add [] (map selection ?L)"
    by simp_all
  have keys: "map fst d = first_occ (map (\<lambda>item. basename (fst item)) ?L)"
    by (simp add: d keys_grouped selection_def comp_def)
  have one: "\<forall>item \<in> set ?L. length (selected_txt item) = 1"
    using ne by (simp add: selected_txt_hd)
  have vals: "\<forall>g \<in> set (map fst d).
      map_of d g = Some (concat (map selected_txt
        (filter (\<lambda>item. basename (fst item) = g) ?L)))"
  proof
    fix g
    assume g: "g \<in> set (map fst d)"
    then have in_keys: "g \<in> fst ` set (map selection ?L)"
      by (simp add: d keys_grouped set_first_occ image_image)
    have sub: "\<forall>item \<in> set (filter (\<lambda>item. basename (fst item) = g) ?L).
        txt_files item \<noteq> []"
      using ne by simp
    have "map_of d g = Some (map snd (filter (\<lambda>p. fst p = g) (map selection ?L)))"
      unfolding d using in_keys by (simp only: map_of_grouped if_True)
    then show "map_of d g = Some (concat (map selected_txt
        (filter (\<lambda>item. basename (fst item) = g) ?L)))"
      by (simp only: selection_filter concat_selected_txt [OF sub])
  qed
  from one keys vals show ?thesis by (intro conjI)
qed

text \<open>C5, as stated, fails: the leaf of \<open>flac_only_fs\<close> holds no file ending in
  \<^verbatim>\<open>.txt\<close>, and the exception the walker raises is IndexError, from indexing
  the empty list; the code has no other exception for a malformed corpus.\<close>

theorem walker_index_error_counterexample:
  "os_walk flac_only_fs ''dev-clean'' =
     [(''dev-clean'', [''84''], []), (''dev-clean/84'', [''121123''], []),
      (''dev-clean/84/121123'', [], [''84-121123-0000.flac'', ''84-121123-0001.flac''])] \<and>
   filter (\<lambda>x. endswith x ''.txt'') [''84-121123-0000.flac'', ''84-121123-0001.flac''] = [] \<and>
   voice_txt_dict_from_path flac_only_fs ''dev-clean'' = Inl IndexError"
  by code_simp

text \<open>C5, amended. When some leaf directory of the tree holds no file whose name ends in
  \<^verbatim>\<open>.txt\<close>, the walker raises IndexError. This is stated for leaves in which
  no name ends in \<^verbatim>\<open>txt\<close> without the dot before it.\<close>

theorem walker_missing_txt:
  assumes "(dir, [], files) \<in> set (os_walk fs folder_path)"
    and "\<forall>x \<in> set files. \<not> endswith x ''.txt''"
    and "\<forall>x \<in> set files. endswith x ''txt'' \<longrightarrow> endswith x ''.txt''"
  shows "voice_txt_dict_from_path fs folder_path = Inl IndexError"
proof -
  have "txt_files (dir, [], files) = []"
  proof -
    have "\<forall>x \<in> set files. \<not> endswith (path_join dir x) ''txt''"
    proof
      fix x
      assume x: "x \<in> set files"
      show "\<not> endswith (path_join dir x) ''txt''"
      proof
        assume "endswith (path_join dir x) ''txt''"
        then have "endswith x ''txt''"
          by (rule endswith_path_join_back [rotated]) simp
        with assms(2,3) x show False by blast
      qed
    qed
    then show ?thesis
      by (simp add: txt_files_def filter_empty_conv)
  qed
  with assms(1) have "\<exists>item \<in> set (os_walk fs folder_path). is_leaf item \<and> txt_files item = []"
    by (intro bexI [of _ "(dir, [], files)"]) (simp_all add: is_leaf_def)
  from voice_loop_raises [OF this] show ?thesis
    by (simp add: voice_txt_dict_from_path_def)
qed

theorem walker_missing_txt_witness:
  "(''d/19/227'', [], [''19-227-0001.flac'']) \<in> set (os_walk no_txt_fs ''d'') \<and>
   list_all (\<lambda>x. \<not> endswith x ''.txt'') [''19-227-0001.flac''] \<and>
   list_all (\<lambda>x. \<not> endswith x ''txt'') [''19-227-0001.flac''] \<and>
   voice_txt_dict_from_path no_txt_fs ''d'' = Inl IndexError"
proof -
  have m: "(''d/19/227'', [], [''19-227-0001.flac'']) \<in> set (os_walk no_txt_fs ''d'')"
    by code_simp
  have a: "list_all (\<lambda>x. \<not> endswith x ''.txt'') [''19-227-0001.flac'']"
    by code_simp
  have b: "list_all (\<lambda>x. \<not> endswith x ''txt'') [''19-227-0001.flac'']"
    by code_simp
  from a have a': "\<forall>x \<in> set [''19-227-0001.flac'']. \<not> endswith x ''.txt''"
    by (simp only: list_all_iff)
  from b have b': "\<forall>x \<in> set [''19-227-0001.flac''].
      endswith x ''txt'' \<longrightarrow> endswith x ''.txt''"
    by (simp only: list_all_iff) blast
  from walker_missing_txt [OF m a' b']
  have r: "voice_txt_dict_from_path no_txt_fs ''d'' = Inl IndexError" .
  from m a b r show ?thesis
    by - (intro conjI, assumption+)
qed

text \<open>C8. The first file ending in \<^verbatim>\<open>.txt\<close> is what the docstring of the
  walker promises (the paths of \<^verbatim>\<open>trans.txt\<close> files), and the clean step tests
  \<^verbatim>\<open>.pkl\<close> with its dot; the filter of line 93 is \<^verbatim>\<open>x.endswith('txt')\<close>,
  without the dot. In the leaf of \<open>two_txt_fs\<close> the first file ending in
  \<^verbatim>\<open>.txt\<close> is \<^verbatim>\<open>19-198.trans.txt\<close>, and the walker selects
  \<^verbatim>\<open>contxt\<close>, listed before it.\<close>

theorem walker_selects_contxt:
  "os_walk two_txt_fs ''198'' =
     [(''198'', [],
       [''a.flac'', ''context'', ''contxt'', ''19-198.trans.txt'', ''z.txt''])] \<and>
   filter (\<lambda>x. endswith x ''.txt'')
     [''a.flac'', ''context'', ''contxt'', ''19-198.trans.txt'', ''z.txt'']
     = [''19-198.trans.txt'', ''z.txt''] \<and>
   voice_txt_dict_from_path two_txt_fs ''198'' = Inr [(''198'', [''198/contxt''])]"
  by code_simp

subsection \<open>The order of the index\<close>

lemma parsed_file:
  assumes "transcriptions_and_flac fs x = Inr (t, flacs)"
  shows "t = file_transcriptions fs x \<and> flacs = file_paths fs x"
proof (cases "stripped_lines fs x")
  case (Inl e)
  from transcriptions_and_flac_Inl [OF Inl] assms show ?thesis by simp
next
  case (Inr ls)
  from transcriptions_and_flac_closed [OF Inr] assms show ?thesis
    by (simp add: file_transcriptions_def file_paths_def file_lines_def Inr)
qed

lemma txt_loop_closed:
  "txt_loop fs v txts acc = Inr idx \<Longrightarrow>
   paths idx = paths acc @ concat (map (file_paths fs) txts) \<and>
   transcriptions idx = transcriptions acc @ concat (map (file_transcriptions fs) txts) \<and>
   ids idx = ids acc @ concat (map (file_ids fs v) txts)"
proof (induction txts arbitrary: acc)
  case Nil
  then show ?case by simp
next
  case (Cons x txts)
  from Cons.prems obtain t flacs where
    p: "transcriptions_and_flac fs x = Inr (t, flacs)"
    by (cases "transcriptions_and_flac fs x") auto
  from parsed_file [OF p] have t: "t = file_transcriptions fs x"
    and f: "flacs = file_paths fs x" by simp_all
  let ?acc = "\<lparr>paths = paths acc @ flacs, transcriptions = transcriptions acc @ t,
                ids = ids acc @ replicate (length flacs) v\<rparr>"
  from Cons.prems p have r: "txt_loop fs v txts ?acc = Inr idx" by simp
  have n: "replicate (length (file_paths fs x)) v = file_ids fs v x"
    by (simp add: file_ids_def file_paths_def)
  from Cons.IH [OF r] show ?case
    by (simp add: t f n)
qed

lemma id_loop_closed:
  "id_loop fs d acc = Inr idx \<Longrightarrow>
   paths idx = paths acc @ concat (map (\<lambda>(g, txts). concat (map (file_paths fs) txts)) d) \<and>
   transcriptions idx =
     transcriptions acc @ concat (map (\<lambda>(g, txts). concat (map (file_transcriptions fs) txts)) d) \<and>
   ids idx = ids acc @ concat (map (\<lambda>(g, txts). concat (map (file_ids fs g) txts)) d)"
proof (induction d arbitrary: acc)
  case Nil
  then show ?case by simp
next
  case (Cons kv d)
  obtain v txts where kv: "kv = (v, txts)" by (cases kv)
  from Cons.prems kv obtain acc' where
    s: "txt_loop fs v txts acc = Inr acc'" and r: "id_loop fs d acc' = Inr idx"
    by (cases "txt_loop fs v txts acc") auto
  from txt_loop_closed [OF s] Cons.IH [OF r] show ?case
    by (simp add: kv)
qed

lemma set_file_ids: "set (concat (map (file_ids fs g) txts)) \<subseteq> {g}"
  by (auto simp: file_ids_def)

lemma blocks_order:
  assumes "distinct (map fst kbs)"
    and "\<forall>kb \<in> set kbs. set (snd kb) \<subseteq> {fst kb}"
    and "i < length (concat (map snd kbs))"
    and "j < length (concat (map snd kbs))"
    and "concat (map snd kbs) ! i
           \<in> set (takeWhile (\<lambda>g. g \<noteq> concat (map snd kbs) ! j) (map fst kbs))"
  shows "i < j"
  using assms
proof (induction kbs arbitrary: i j)
  case Nil
  then show ?case by simp
next
  case (Cons kb kbs)
  obtain k b where kb: "kb = (k, b)" by (cases kb)
  let ?xs = "concat (map snd kbs)"
  have all_k: "set b \<subseteq> {k}" using Cons.prems(2) kb by simp
  have rest: "set ?xs \<subseteq> fst ` set kbs"
    using Cons.prems(2) by fastforce
  have notin: "k \<notin> fst ` set kbs" using Cons.prems(1) kb by simp
  let ?B = "(b @ ?xs) ! j"
  from Cons.prems(5) kb have kB: "k \<noteq> ?B"
    by (auto split: if_splits)
  have jb: "length b \<le> j"
  proof (rule ccontr)
    assume "\<not> length b \<le> j"
    then have "j < length b" by simp
    then have "?B \<in> set b" by (simp add: nth_append)
    with all_k kB show False by auto
  qed
  show ?case
  proof (cases "i < length b")
    case True
    with jb show ?thesis by simp
  next
    case False
    then have ib: "length b \<le> i" by simp
    from ib Cons.prems(3) kb have i': "i - length b < length ?xs" by simp
    from jb Cons.prems(4) kb have j': "j - length b < length ?xs" by simp
    have Ai: "(b @ ?xs) ! i = ?xs ! (i - length b)"
      using ib by (simp add: nth_append)
    have Bj: "?B = ?xs ! (j - length b)"
      using jb by (simp add: nth_append)
    from i' have "?xs ! (i - length b) \<in> set ?xs" by (rule nth_mem)
    with rest notin have Ak: "?xs ! (i - length b) \<noteq> k" by auto
    from Cons.prems(5) kb kB Ai Bj Ak
    have "?xs ! (i - length b)
        \<in> set (takeWhile (\<lambda>g. g \<noteq> ?xs ! (j - length b)) (map fst kbs))"
      by (auto split: if_splits)
    from Cons.IH [OF _ _ i' j' this] Cons.prems(1,2)
    have "i - length b < j - length b" by simp
    then show ?thesis by simp
  qed
qed

text \<open>C7. The index is the concatenation, over the keys in order of first discovery and
  over the transcripts of a key in discovery order, of what each transcript contributes
  in the order of its lines; so an utterance of a group discovered before another group
  comes before every utterance of that group.\<close>

theorem index_order:
  assumes "flacpath_transcription_id fs p = Inr idx"
  shows "\<exists>d. voice_txt_dict_from_path fs p = Inr d \<and>
     paths idx = concat (map (\<lambda>(g, txts). concat (map (file_paths fs) txts)) d) \<and>
     transcriptions idx =
       concat (map (\<lambda>(g, txts). concat (map (file_transcriptions fs) txts)) d) \<and>
     ids idx = concat (map (\<lambda>(g, txts). concat (map (file_ids fs g) txts)) d) \<and>
     map fst d = first_occ (map (\<lambda>item. basename (fst item)) (leaves (os_walk fs p))) \<and>
     (\<forall>i j. i < length (ids idx) \<longrightarrow> j < length (ids idx) \<longrightarrow>
        discovered_before (map (\<lambda>item. basename (fst item)) (leaves (os_walk fs p)))
          (ids idx ! i) (ids idx ! j) \<longrightarrow>
        i < j)"
proof -
  let ?gs = "map (\<lambda>item. basename (fst item)) (leaves (os_walk fs p))"
  from assms obtain d where d: "voice_txt_dict_from_path fs p = Inr d"
    and l: "id_loop fs d \<lparr>paths = [], transcriptions = [], ids = []\<rparr> = Inr idx"
    by (cases "voice_txt_dict_from_path fs p")
       (auto simp: flacpath_transcription_id_def)
  from id_loop_closed [OF l]
  have ps: "paths idx = concat (map (\<lambda>(g, txts). concat (map (file_paths fs) txts)) d)"
    and ts: "transcriptions idx =
       concat (map (\<lambda>(g, txts). concat (map (file_transcriptions fs) txts)) d)"
    and ii: "ids idx = concat (map (\<lambda>(g, txts). concat (map (file_ids fs g) txts)) d)"
    by simp_all
  from walker_keys [OF d] have keys: "map fst d = first_occ ?gs" .
  let ?kbs = "map (\<lambda>(g, txts). (g, concat (map (file_ids fs g) txts))) d"
  have k1: "map fst ?kbs = map fst d"
    by (induction d) auto
  have k2: "concat (map snd ?kbs) = ids idx"
    unfolding ii by (induction d) auto
  have k3: "distinct (map fst ?kbs)"
    by (simp only: k1 keys distinct_first_occ)
  have k4: "\<forall>kb \<in> set ?kbs. set (snd kb) \<subseteq> {fst kb}"
    using set_file_ids by fastforce
  have ord: "\<forall>i j. i < length (ids idx) \<longrightarrow> j < length (ids idx) \<longrightarrow>
        discovered_before ?gs (ids idx ! i) (ids idx ! j) \<longrightarrow> i < j"
  proof (intro allI impI)
    fix i j
    assume i: "i < length (ids idx)" and j: "j < length (ids idx)"
      and b: "discovered_before ?gs (ids idx ! i) (ids idx ! j)"
    from b have "ids idx ! i \<in> set (takeWhile (\<lambda>g. g \<noteq> ids idx ! j) (first_occ ?gs))"
      by (simp only: discovered_before_def takeWhile_first_occ)
    then have m: "concat (map snd ?kbs) ! i
        \<in> set (takeWhile (\<lambda>g. g \<noteq> concat (map snd ?kbs) ! j) (map fst ?kbs))"
      by (simp only: k1 k2 keys)
    from i j have i': "i < length (concat (map snd ?kbs))"
      and j': "j < length (concat (map snd ?kbs))"
      by (simp_all only: k2)
    from blocks_order [OF k3 k4 i' j' m] show "i < j" .
  qed
  from d ps ts ii keys ord show ?thesis by blast
qed

theorem index_order_witness:
  "flacpath_transcription_id corpus_fs ''LibriSpeech/dev-clean'' = Inr corpus_index \<and>
   voice_txt_dict_from_path corpus_fs ''LibriSpeech/dev-clean'' = Inr corpus_dict \<and>
   map (\<lambda>item. basename (fst item)) (leaves (os_walk corpus_fs ''LibriSpeech/dev-clean''))
     = [''198'', ''227'', ''198''] \<and>
   discovered_before [''198'', ''227'', ''198''] ''198'' ''227'' \<and>
   ids corpus_index ! 2 = ''198'' \<and> ids corpus_index ! 3 = ''227'' \<and>
   ids corpus_index = concat (map (\<lambda>(g, txts). concat (map (file_ids corpus_fs g) txts)) corpus_dict) \<and>
   (2::nat) < 3"
proof -
  let ?p = "''LibriSpeech/dev-clean''"
  have h: "flacpath_transcription_id corpus_fs ?p = Inr corpus_index"
    by code_simp
  have w: "voice_txt_dict_from_path corpus_fs ?p = Inr corpus_dict"
    by code_simp
  have g: "map (\<lambda>item. basename (fst item)) (leaves (os_walk corpus_fs ?p))
     = [''198'', ''227'', ''198'']"
    by code_simp
  have b: "discovered_before [''198'', ''227'', ''198''] ''198'' ''227''"
    by code_simp
  have i2: "ids corpus_index ! 2 = ''198''" by code_simp
  have i3: "ids corpus_index ! 3 = ''227''" by code_simp
  have n: "length (ids corpus_index) = 4" by code_simp
  from index_order [OF h] w
  have e: "ids corpus_index =
      concat (map (\<lambda>(g, txts). concat (map (file_ids corpus_fs g) txts)) corpus_dict)"
    and o: "\<forall>i j. i < length (ids corpus_index) \<longrightarrow> j < length (ids corpus_index) \<longrightarrow>
        discovered_before
          (map (\<lambda>item. basename (fst item)) (leaves (os_walk corpus_fs ?p)))
          (ids corpus_index ! i) (ids corpus_index ! j) \<longrightarrow> i < j"
    by auto
  from o have "2 < length (ids corpus_index) \<longrightarrow> 3 < length (ids corpus_index) \<longrightarrow>
        discovered_before
          (map (\<lambda>item. basename (fst item)) (leaves (os_walk corpus_fs ?p)))
          (ids corpus_index ! 2) (ids corpus_index ! 3) \<longrightarrow> (2::nat) < 3"
    by blast
  with n g b i2 i3 have lt: "(2::nat) < 3" by simp
  from h w g b i2 i3 e lt show ?thesis
    by - (intro conjI, assumption+)
qed

subsection \<open>Writing, removing and making directories\<close>

lemma map_of_set_entry: "map_of (set_entry es x n) = (map_of es)(x \<mapsto> n)"
  by (induction es x n rule: set_entry.induct) (auto simp: fun_eq_iff)

lemma map_of_filter_fst:
  "map_of (filter (\<lambda>e. fst e \<noteq> x) es) y = (if y = x then None else map_of es y)"
  by (induction es) auto

lemma keys_set_entry: "map_of es x = Some m \<Longrightarrow> map fst (set_entry es x n) = map fst es"
  by (induction es x n rule: set_entry.induct) (auto split: if_splits)

lemma put_same: "put n cs content = Inr n' \<Longrightarrow> lookup n' cs = Some (File content)"
proof (induction n cs content arbitrary: n' rule: put.induct)
  case (1 n content)
  then show ?case by simp
next
  case (2 c x xs content)
  then show ?case by simp
next
  case (3 es x content)
  then show ?case
    by (auto simp: map_of_set_entry split: option.splits node.splits)
next
  case (4 es x y ys content)
  from "4.prems" obtain m m' where m: "map_of es x = Some m"
    and p: "put m (y # ys) content = Inr m'" and n': "n' = Dir (set_entry es x m')"
    by (auto split: option.splits sum.splits)
  from "4.IH" [OF m p] show ?case
    by (simp add: n' map_of_set_entry)
qed

lemma put_other:
  "put n cs' content = Inr n' \<Longrightarrow> lookup n cs = Some (File c) \<Longrightarrow> cs \<noteq> cs' \<Longrightarrow>
   lookup n' cs = Some (File c)"
proof (induction n cs' content arbitrary: n' cs rule: put.induct)
  case (1 n content)
  then show ?case by simp
next
  case (2 c x xs content)
  then show ?case by simp
next
  case (3 es x content)
  from "3.prems"(2) obtain z zs where cs: "cs = z # zs"
    by (cases cs) auto
  from "3.prems"(1) have n': "n' = Dir (set_entry es x (File content))"
    by (auto split: option.splits node.splits)
  show ?case
  proof (cases "z = x")
    case True
    with "3.prems" cs have "zs \<noteq> []" by simp
    with "3.prems"(1,2) cs True show ?thesis
      by (cases zs) (auto split: option.splits node.splits)
  next
    case False
    with "3.prems"(2) cs show ?thesis
      by (simp add: n' map_of_set_entry)
  qed
next
  case (4 es x y ys content)
  from "4.prems"(1) obtain m m' where m: "map_of es x = Some m"
    and p: "put m (y # ys) content = Inr m'" and n': "n' = Dir (set_entry es x m')"
    by (auto split: option.splits sum.splits)
  from "4.prems"(2) obtain z zs where cs: "cs = z # zs"
    by (cases cs) auto
  show ?case
  proof (cases "z = x")
    case True
    from "4.prems"(2) cs True m have l: "lookup m zs = Some (File c)" by simp
    from "4.prems"(3) cs True have ne: "zs \<noteq> y # ys" by simp
    from "4.IH" [OF m p l ne] show ?thesis
      by (simp add: cs True n' map_of_set_entry)
  next
    case False
    with "4.prems"(2) cs show ?thesis
      by (simp add: n' map_of_set_entry)
  qed
qed




lemma remove_at_other:
  "remove_at n cs' = Inr n' \<Longrightarrow> lookup n cs = Some (File c) \<Longrightarrow> cs \<noteq> cs' \<Longrightarrow>
   lookup n' cs = Some (File c)"
proof (induction n cs' arbitrary: n' cs rule: remove_at.induct)
  case (1 n)
  then show ?case by simp
next
  case (2 c x xs)
  then show ?case by simp
next
  case (3 es x)
  from "3.prems"(2) obtain z zs where cs: "cs = z # zs"
    by (cases cs) auto
  from "3.prems"(1) obtain c0 where m: "map_of es x = Some (File c0)"
    and n': "n' = Dir (filter (\<lambda>e. fst e \<noteq> x) es)"
    by (auto split: option.splits node.splits)
  show ?case
  proof (cases "z = x")
    case True
    with "3.prems"(3) cs have "zs \<noteq> []" by simp
    with "3.prems"(2) cs True m show ?thesis
      by (cases zs) auto
  next
    case False
    with "3.prems"(2) cs show ?thesis
      by (simp add: n' map_of_filter_fst)
  qed
next
  case (4 es x y ys)
  from "4.prems"(1) obtain m m' where m: "map_of es x = Some m"
    and p: "remove_at m (y # ys) = Inr m'" and n': "n' = Dir (set_entry es x m')"
    by (auto split: option.splits sum.splits)
  from "4.prems"(2) obtain z zs where cs: "cs = z # zs"
    by (cases cs) auto
  show ?case
  proof (cases "z = x")
    case True
    from "4.prems"(2) cs True m have l: "lookup m zs = Some (File c)" by simp
    from "4.prems"(3) cs True have ne: "zs \<noteq> y # ys" by simp
    from "4.IH" [OF m p l ne] show ?thesis
      by (simp add: cs True n' map_of_set_entry)
  next
    case False
    with "4.prems"(2) cs show ?thesis
      by (simp add: n' map_of_set_entry)
  qed
qed

lemma remove_loop_frame:
  "remove_loop fs ps = Inr fs' \<Longrightarrow> lookup fs cs = Some (File c) \<Longrightarrow>
   \<forall>p \<in> set ps. cs \<noteq> comps p \<Longrightarrow> lookup fs' cs = Some (File c)"
proof (induction ps arbitrary: fs)
  case Nil
  then show ?case by simp
next
  case (Cons p ps)
  from Cons.prems(1) obtain fs1 where r: "remove_at fs (comps p) = Inr fs1"
    and l: "remove_loop fs1 ps = Inr fs'"
    by (auto simp: os_remove_def split: if_splits sum.splits)
  from Cons.prems(3) have ne: "cs \<noteq> comps p" and rest: "\<forall>p \<in> set ps. cs \<noteq> comps p"
    by simp_all
  from remove_at_other [OF r Cons.prems(2) ne] have "lookup fs1 cs = Some (File c)" .
  from Cons.IH [OF l this rest] show ?case .
qed

lemma remove_at_listing:
  "remove_at n cs' = Inr n' \<Longrightarrow> lookup n' cs = Some (Dir es') \<Longrightarrow>
   \<exists>es. lookup n cs = Some (Dir es) \<and> set (map fst es') \<subseteq> set (map fst es)"
proof (induction n cs' arbitrary: n' cs rule: remove_at.induct)
  case (1 n)
  then show ?case by simp
next
  case (2 c x xs)
  then show ?case by simp
next
  case (3 es x)
  from "3.prems"(1) have n': "n' = Dir (filter (\<lambda>e. fst e \<noteq> x) es)"
    by (auto split: option.splits node.splits)
  show ?case
  proof (cases cs)
    case Nil
    with "3.prems"(2) n' show ?thesis by auto
  next
    case (Cons z zs)
    with "3.prems"(2) n' show ?thesis
      by (auto simp: map_of_filter_fst split: if_splits option.splits)
  qed
next
  case (4 es x y ys)
  from "4.prems"(1) obtain m m' where m: "map_of es x = Some m"
    and p: "remove_at m (y # ys) = Inr m'" and n': "n' = Dir (set_entry es x m')"
    by (auto split: option.splits sum.splits)
  show ?case
  proof (cases cs)
    case Nil
    with "4.prems"(2) n' keys_set_entry [OF m, of m'] show ?thesis by auto
  next
    case (Cons z zs)
    show ?thesis
    proof (cases "z = x")
      case True
      from "4.prems"(2) Cons True have "lookup m' zs = Some (Dir es')"
        by (simp add: n' map_of_set_entry)
      from "4.IH" [OF m p this] show ?thesis
        by (simp add: Cons True m)
    next
      case False
      with "4.prems"(2) Cons show ?thesis
        by (simp add: n' map_of_set_entry)
    qed
  qed
qed

lemma os_remove_listed:
  "os_remove fs q = Inr fs' \<Longrightarrow> set (listed fs' p) \<subseteq> set (listed fs p)"
proof (cases "p = []")
  case True
  then show ?thesis by (simp add: listed_def os_listdir_def resolve_def)
next
  case False
  assume r: "os_remove fs q = Inr fs'"
  then have ra: "remove_at fs (comps q) = Inr fs'"
    by (auto simp: os_remove_def split: if_splits)
  show ?thesis
  proof (cases "lookup fs' (comps p)")
    case None
    with False show ?thesis by (simp add: listed_def os_listdir_def resolve_def)
  next
    case (Some m)
    show ?thesis
    proof (cases m)
      case (File c)
      with Some False show ?thesis by (simp add: listed_def os_listdir_def resolve_def)
    next
      case (Dir es')
      with Some have "lookup fs' (comps p) = Some (Dir es')" by simp
      from remove_at_listing [OF ra this] obtain es where
        "lookup fs (comps p) = Some (Dir es)" "set (map fst es') \<subseteq> set (map fst es)"
        by blast
      with Some Dir False show ?thesis
        by (simp add: listed_def os_listdir_def resolve_def)
    qed
  qed
qed

lemma remove_loop_listed:
  "remove_loop fs ps = Inr fs' \<Longrightarrow> set (listed fs' p) \<subseteq> set (listed fs p)"
proof (induction ps arbitrary: fs)
  case Nil
  then show ?case by simp
next
  case (Cons q ps)
  from Cons.prems obtain fs1 where r: "os_remove fs q = Inr fs1"
    and l: "remove_loop fs1 ps = Inr fs'"
    by (auto split: sum.splits)
  from os_remove_listed [OF r, of p] Cons.IH [OF l] show ?case by blast
qed






subsection \<open>Fetching once\<close>










subsection \<open>Paths and their components\<close>

lemma split_sep_nonempty: "split_sep p \<noteq> []"
  by (induction p) (auto split: list.splits)

lemma split_sep_plain: "CHR ''/'' \<notin> set t \<Longrightarrow> split_sep t = [t]"
  by (induction t) auto

lemma split_sep_append:
  "CHR ''/'' \<notin> set t \<Longrightarrow>
   split_sep (q @ t) = butlast (split_sep q) @ [last (split_sep q) @ t]"
proof (induction q)
  case Nil
  then show ?case by (simp add: split_sep_plain)
next
  case (Cons c q)
  obtain v vs where b: "split_sep q = v # vs"
    using split_sep_nonempty [of q] by (cases "split_sep q") auto
  from Cons.IH [OF Cons.prems]
  have ih: "split_sep (q @ t) = butlast (v # vs) @ [last (v # vs) @ t]"
    by (simp only: b)
  show ?case
  proof (cases "c = CHR ''/''")
    case True
    then show ?thesis by (simp add: ih b)
  next
    case False
    then show ?thesis
      by (cases vs) (simp_all add: ih b)
  qed
qed

lemma last_split_sep_append:
  "CHR ''/'' \<notin> set t \<Longrightarrow> last (split_sep (q @ t)) = last (split_sep q) @ t"
  by (simp add: split_sep_append)

lemma split_sep_sep: "split_sep (a @ CHR ''/'' # t) = split_sep a @ split_sep t"
proof (induction a)
  case Nil
  show ?case by simp
next
  case (Cons c a)
  obtain v vs where "split_sep a = v # vs"
    using split_sep_nonempty [of a] by (cases "split_sep a") auto
  with Cons show ?case by simp
qed

lemma norm_comps_snoc:
  "l \<noteq> [] \<Longrightarrow> l \<noteq> ''.'' \<Longrightarrow> l \<noteq> ''..'' \<Longrightarrow>
   norm_comps acc (ys @ [l]) = norm_comps acc ys @ [l]"
  by (induction ys arbitrary: acc) auto

lemma norm_comps_snoc_empty: "norm_comps acc (ys @ [[]]) = norm_comps acc ys"
  by (induction ys arbitrary: acc) auto

lemma last_comps:
  assumes "last (split_sep p) \<noteq> []" "last (split_sep p) \<noteq> ''.''" "last (split_sep p) \<noteq> ''..''"
  shows "comps p \<noteq> [] \<and> last (comps p) = last (split_sep p)"
proof -
  have "split_sep p = butlast (split_sep p) @ [last (split_sep p)]"
    using split_sep_nonempty by simp
  then have "comps p = norm_comps [] (butlast (split_sep p)) @ [last (split_sep p)]"
    unfolding comps_def using norm_comps_snoc [OF assms] by metis
  then show ?thesis by simp
qed

lemma pkl_last_comp:
  assumes "endswith p ''.pkl''"
  shows "comps p \<noteq> [] \<and> endswith (last (comps p)) ''.pkl''"
proof -
  from assms obtain q where p: "p = q @ ''.pkl''"
    by (auto simp: endswith_iff)
  have l: "last (split_sep p) = last (split_sep q) @ ''.pkl''"
    unfolding p by (rule last_split_sep_append) simp
  have "comps p \<noteq> [] \<and> last (comps p) = last (split_sep p)"
    by (rule last_comps) (simp_all add: l)
  with l show ?thesis by (simp add: endswith_iff)
qed

lemma not_pkl_path:
  assumes "cs \<noteq> []" "\<not> endswith (last cs) ''.pkl''" "endswith f ''.pkl''"
  shows "cs \<noteq> comps (path_join a f)"
proof
  assume e: "cs = comps (path_join a f)"
  from assms(3) have "endswith (path_join a f) ''.pkl''"
    by (rule endswith_path_join)
  from pkl_last_comp [OF this] e assms(2) show False by simp
qed

lemma comps_append_name:
  assumes "valid_name f"
  shows "comps (a @ CHR ''/'' # f) = comps a @ [f]"
proof -
  from assms have p: "split_sep f = [f]" and v: "f \<noteq> []" "f \<noteq> ''.''" "f \<noteq> ''..''"
    by (simp_all add: valid_name_def split_sep_plain)
  show ?thesis
    by (simp add: comps_def split_sep_sep p norm_comps_snoc [OF v])
qed

lemma comps_path_join:
  assumes "valid_name f"
  shows "comps (path_join a f) = comps a @ [f]"
proof -
  from assms have ns: "\<not> startswith f ''/''"
    by (cases f) (auto simp: startswith_def valid_name_def)
  from assms have p: "split_sep f = [f]" and v: "f \<noteq> []" "f \<noteq> ''.''" "f \<noteq> ''..''"
    by (simp_all add: valid_name_def split_sep_plain)
  show ?thesis
  proof (cases "a = []")
    case True
    with ns v show ?thesis by (simp add: path_join_def comps_def p)
  next
    case False
    show ?thesis
    proof (cases "endswith a ''/''")
      case True
      then obtain b where a: "a = b @ ''/''" by (auto simp: endswith_iff)
      have "comps a = comps b"
        by (simp add: a comps_def split_sep_sep norm_comps_snoc_empty)
      moreover have "path_join a f = b @ CHR ''/'' # f"
        using ns True by (simp add: path_join_def a)
      ultimately show ?thesis by (simp add: comps_append_name [OF assms])
    next
      case e: False
      with ns False have "path_join a f = a @ CHR ''/'' # f"
        by (simp add: path_join_def)
      then show ?thesis by (simp add: comps_append_name [OF assms])
    qed
  qed
qed

lemma wf_lookup:
  "wf_node n \<Longrightarrow> lookup n cs = Some (Dir es) \<Longrightarrow> \<forall>e \<in> set es. valid_name (fst e)"
proof (induction cs arbitrary: n)
  case Nil
  then show ?case by (auto simp: list_all_iff)
next
  case (Cons x xs)
  from Cons.prems(2) obtain es0 m where n: "n = Dir es0" and m: "map_of es0 x = Some m"
    and l: "lookup m xs = Some (Dir es)"
    by (cases n) (auto split: option.splits)
  from m have "(x, m) \<in> set es0" by (rule map_of_SomeD)
  with Cons.prems(1) n have "wf_node m" by (auto simp: list_all_iff)
  from Cons.IH [OF this l] show ?case .
qed

lemma wf_listed:
  assumes "wf_node fs" and "f \<in> set (listed fs p)"
  shows "valid_name f"
proof -
  from assms(2) obtain es where "resolve fs p = Some (Dir es)" and f: "f \<in> fst ` set es"
    by (auto simp: listed_def os_listdir_def split: option.splits node.splits)
  then have "lookup fs (comps p) = Some (Dir es)"
    by (auto simp: resolve_def split: if_splits)
  from wf_lookup [OF assms(1) this] f show ?thesis by auto
qed

subsection \<open>Cleaning\<close>

lemma clean_frame_listed:
  "clean fs save_dir folder_names verbose = Inr fs' \<Longrightarrow> lookup fs cs = Some (File c) \<Longrightarrow>
   \<forall>fname \<in> set folder_names. \<forall>f \<in> set (listed fs (path_join save_dir fname)).
      endswith f ''.pkl'' \<longrightarrow> cs \<noteq> comps (path_join (path_join save_dir fname) f) \<Longrightarrow>
   lookup fs' cs = Some (File c)"
proof (induction folder_names arbitrary: fs)
  case Nil
  then show ?case by simp
next
  case (Cons fname rest)
  let ?fpath = "path_join save_dir fname"
  from Cons.prems(3) have here: "\<forall>f \<in> set (listed fs ?fpath).
      endswith f ''.pkl'' \<longrightarrow> cs \<noteq> comps (path_join ?fpath f)"
    and later: "\<forall>fname \<in> set rest. \<forall>f \<in> set (listed fs (path_join save_dir fname)).
      endswith f ''.pkl'' \<longrightarrow> cs \<noteq> comps (path_join (path_join save_dir fname) f)"
    by simp_all
  show ?case
  proof (cases "path_exists fs ?fpath")
    case False
    with Cons.prems(1) have "clean fs save_dir rest verbose = Inr fs'"
      by (simp add: Let_def)
    from Cons.IH [OF this Cons.prems(2) later] show ?thesis .
  next
    case True
    with Cons.prems(1) obtain names fs1 where
      n: "os_listdir fs ?fpath = Inr names"
      and l: "remove_loop fs
          (map (\<lambda>f. path_join ?fpath f) (filter (\<lambda>f. endswith f ''.pkl'') names)) = Inr fs1"
      and r: "clean fs1 save_dir rest verbose = Inr fs'"
      by (auto simp: Let_def split: sum.splits)
    from n have ln: "listed fs ?fpath = names" by (simp add: listed_def)
    from here ln have "\<forall>p \<in> set (map (\<lambda>f. path_join ?fpath f)
        (filter (\<lambda>f. endswith f ''.pkl'') names)). cs \<noteq> comps p"
      by auto
    from remove_loop_frame [OF l Cons.prems(2) this] have k: "lookup fs1 cs = Some (File c)" .
    from later remove_loop_listed [OF l]
    have later1: "\<forall>fname \<in> set rest. \<forall>f \<in> set (listed fs1 (path_join save_dir fname)).
      endswith f ''.pkl'' \<longrightarrow> cs \<noteq> comps (path_join (path_join save_dir fname) f)"
      by blast
    from Cons.IH [OF r k later1] show ?thesis .
  qed
qed

lemma clean_noop:
  "\<forall>fname \<in> set folder_names. no_index fs save_dir fname \<Longrightarrow>
   clean fs save_dir folder_names verbose = Inr fs"
proof (induction folder_names)
  case Nil
  show ?case by simp
next
  case (Cons fname rest)
  from Cons.prems have n: "no_index fs save_dir fname"
    and r: "\<forall>fname \<in> set rest. no_index fs save_dir fname" by simp_all
  from Cons.IH [OF r] have ih: "clean fs save_dir rest verbose = Inr fs" .
  show ?case
  proof (cases "resolve fs (path_join save_dir fname)")
    case None
    then show ?thesis by (simp add: path_exists_def ih)
  next
    case (Some m)
    with n obtain es where es: "m = Dir es"
      and no: "list_all (\<lambda>e. \<not> endswith (fst e) ''.pkl'') es"
      by (cases m) (auto simp: no_index_def)
    from no have "filter (\<lambda>f. endswith f ''.pkl'') (map fst es) = []"
      by (induction es) auto
    with Some es show ?thesis
      by (simp add: path_exists_def os_listdir_def ih)
  qed
qed

text \<open>C9. When the clean step returns, a file is as before unless its path is that of
  a selected dataset directory joined with a name which that directory lists and which
  ends in \<^verbatim>\<open>.pkl\<close>. So every file whose name does not end in \<^verbatim>\<open>.pkl\<close>
  is kept, audio and transcripts among them, and in a well-formed tree every file that
  does not lie directly in a selected dataset directory. When every selected dataset is
  absent or is a directory that lists no such name, the step returns the file system
  unchanged and does not raise.\<close>

theorem clean_only_pkl:
  "(\<forall>fs'. clean fs save_dir folder_names verbose = Inr fs' \<longrightarrow>
      (\<forall>cs c. lookup fs cs = Some (File c) \<longrightarrow>
         (\<forall>fname \<in> set folder_names. \<forall>f \<in> set (listed fs (path_join save_dir fname)).
            endswith f ''.pkl'' \<longrightarrow> cs \<noteq> comps (path_join (path_join save_dir fname) f)) \<longrightarrow>
         lookup fs' cs = Some (File c)) \<and>
      (\<forall>cs c. cs \<noteq> [] \<longrightarrow> \<not> endswith (last cs) ''.pkl'' \<longrightarrow>
         lookup fs cs = Some (File c) \<longrightarrow> lookup fs' cs = Some (File c)) \<and>
      (wf_node fs \<longrightarrow>
         (\<forall>cs c. lookup fs cs = Some (File c) \<longrightarrow>
            (\<forall>fname \<in> set folder_names. butlast cs \<noteq> comps (path_join save_dir fname)) \<longrightarrow>
            lookup fs' cs = Some (File c)))) \<and>
   ((\<forall>fname \<in> set folder_names. no_index fs save_dir fname) \<longrightarrow>
      clean fs save_dir folder_names verbose = Inr fs)"
proof (intro conjI allI impI)
  fix fs' cs c
  assume "clean fs save_dir folder_names verbose = Inr fs'"
    and "lookup fs cs = Some (File c)"
    and "\<forall>fname \<in> set folder_names. \<forall>f \<in> set (listed fs (path_join save_dir fname)).
            endswith f ''.pkl'' \<longrightarrow> cs \<noteq> comps (path_join (path_join save_dir fname) f)"
  then show "lookup fs' cs = Some (File c)"
    by (rule clean_frame_listed)
next
  fix fs' cs c
  assume r: "clean fs save_dir folder_names verbose = Inr fs'"
    and ne: "cs \<noteq> []" and np: "\<not> endswith (last cs) ''.pkl''"
    and l: "lookup fs cs = Some (File c)"
  have "\<forall>fname \<in> set folder_names. \<forall>f \<in> set (listed fs (path_join save_dir fname)).
            endswith f ''.pkl'' \<longrightarrow> cs \<noteq> comps (path_join (path_join save_dir fname) f)"
    using not_pkl_path [OF ne np] by blast
  from clean_frame_listed [OF r l this] show "lookup fs' cs = Some (File c)" .
next
  fix fs' cs c
  assume r: "clean fs save_dir folder_names verbose = Inr fs'"
    and wf: "wf_node fs"
    and l: "lookup fs cs = Some (File c)"
    and out: "\<forall>fname \<in> set folder_names. butlast cs \<noteq> comps (path_join save_dir fname)"
  have "\<forall>fname \<in> set folder_names. \<forall>f \<in> set (listed fs (path_join save_dir fname)).
            endswith f ''.pkl'' \<longrightarrow> cs \<noteq> comps (path_join (path_join save_dir fname) f)"
  proof (intro ballI impI notI)
    fix fname f
    assume fn: "fname \<in> set folder_names"
      and f: "f \<in> set (listed fs (path_join save_dir fname))"
      and e: "cs = comps (path_join (path_join save_dir fname) f)"
    from wf_listed [OF wf f] have "valid_name f" .
    from comps_path_join [OF this] e
    have "butlast cs = comps (path_join save_dir fname)" by simp
    with out fn show False by blast
  qed
  from clean_frame_listed [OF r l this] show "lookup fs' cs = Some (File c)" .
next
  assume "\<forall>fname \<in> set folder_names. no_index fs save_dir fname"
  then show "clean fs save_dir folder_names verbose = Inr fs"
    by (rule clean_noop)
qed

theorem clean_only_pkl_witness:
  "clean indexed_fs ''LibriSpeech'' [''dev-clean'', ''test-clean'', ''dev-other''] True
     = Inr swept_fs \<and>
   lookup indexed_fs [''LibriSpeech'', ''dev-clean'', ''master.pkl''] = Some (File ''m'') \<and>
   lookup swept_fs [''LibriSpeech'', ''dev-clean'', ''master.pkl''] = None \<and>
   wf_node indexed_fs \<and>
   lookup indexed_fs [''LibriSpeech'', ''test-clean'', ''61'', ''features.pkl''] = Some (File ''f'') \<and>
   list_all (\<lambda>fname. butlast [''LibriSpeech'', ''test-clean'', ''61'', ''features.pkl'']
                \<noteq> comps (path_join ''LibriSpeech'' fname))
     [''dev-clean'', ''test-clean'', ''dev-other''] \<and>
   lookup swept_fs [''LibriSpeech'', ''test-clean'', ''61'', ''features.pkl''] = Some (File ''f'') \<and>
   lookup indexed_fs [''LibriSpeech'', ''keep.pkl''] = Some (File ''k'') \<and>
   list_all (\<lambda>fname. list_all (\<lambda>f. \<not> (endswith f ''.pkl'' \<and>
                [''LibriSpeech'', ''keep.pkl'']
                  = comps (path_join (path_join ''LibriSpeech'' fname) f)))
                (listed indexed_fs (path_join ''LibriSpeech'' fname)))
     [''dev-clean'', ''test-clean'', ''dev-other''] \<and>
   lookup swept_fs [''LibriSpeech'', ''keep.pkl''] = Some (File ''k'') \<and>
   lookup indexed_fs [''LibriSpeech'', ''dev-clean'', ''26'', ''198'', ''26-198.trans.txt'']
     = Some (File (''26-198-0001 THE END'' @ [CHR 0x0A])) \<and>
   \<not> endswith (last [''LibriSpeech'', ''dev-clean'', ''26'', ''198'', ''26-198.trans.txt'']) ''.pkl'' \<and>
   lookup swept_fs [''LibriSpeech'', ''dev-clean'', ''26'', ''198'', ''26-198.trans.txt'']
     = Some (File (''26-198-0001 THE END'' @ [CHR 0x0A])) \<and>
   list_all (no_index swept_fs ''LibriSpeech'') [''dev-clean'', ''test-clean'', ''dev-other''] \<and>
   clean swept_fs ''LibriSpeech'' [''dev-clean'', ''test-clean'', ''dev-other''] True
     = Inr swept_fs"
proof -
  let ?names = "[''dev-clean'', ''test-clean'', ''dev-other'']"
  let ?cs = "[''LibriSpeech'', ''dev-clean'', ''26'', ''198'', ''26-198.trans.txt'']"
  let ?ft = "[''LibriSpeech'', ''test-clean'', ''61'', ''features.pkl'']"
  let ?kp = "[''LibriSpeech'', ''keep.pkl'']"
  note fr = clean_only_pkl [of indexed_fs "''LibriSpeech''" ?names True]
  note fr' = clean_only_pkl [of swept_fs "''LibriSpeech''" ?names True]
  have r: "clean indexed_fs ''LibriSpeech'' ?names True = Inr swept_fs"
    by code_simp
  have m: "lookup indexed_fs [''LibriSpeech'', ''dev-clean'', ''master.pkl''] = Some (File ''m'')"
    by code_simp
  have m': "lookup swept_fs [''LibriSpeech'', ''dev-clean'', ''master.pkl''] = None"
    by code_simp
  have wf: "wf_node indexed_fs" by code_simp
  have f: "lookup indexed_fs ?ft = Some (File ''f'')" by code_simp
  have fo: "list_all (\<lambda>fname. butlast ?ft \<noteq> comps (path_join ''LibriSpeech'' fname)) ?names"
    by code_simp
  then have fo': "\<forall>fname \<in> set ?names. butlast ?ft \<noteq> comps (path_join ''LibriSpeech'' fname)"
    by (simp only: list_all_iff)
  from fr r wf f fo' have f': "lookup swept_fs ?ft = Some (File ''f'')"
    by blast
  have k: "lookup indexed_fs ?kp = Some (File ''k'')" by code_simp
  have ko: "list_all (\<lambda>fname. list_all (\<lambda>f. \<not> (endswith f ''.pkl'' \<and>
                ?kp = comps (path_join (path_join ''LibriSpeech'' fname) f)))
                (listed indexed_fs (path_join ''LibriSpeech'' fname))) ?names"
    by code_simp
  then have ko': "\<forall>fname \<in> set ?names.
      \<forall>f \<in> set (listed indexed_fs (path_join ''LibriSpeech'' fname)).
        endswith f ''.pkl'' \<longrightarrow> ?kp \<noteq> comps (path_join (path_join ''LibriSpeech'' fname) f)"
    by (simp only: list_all_iff) blast
  from fr r k ko' have k': "lookup swept_fs ?kp = Some (File ''k'')"
    by blast
  have t: "lookup indexed_fs ?cs = Some (File (''26-198-0001 THE END'' @ [CHR 0x0A]))"
    by code_simp
  have ne: "?cs \<noteq> []" by simp
  have np: "\<not> endswith (last ?cs) ''.pkl''"
    by code_simp
  from fr r ne np t
  have t': "lookup swept_fs ?cs = Some (File (''26-198-0001 THE END'' @ [CHR 0x0A]))"
    by blast
  have n: "list_all (no_index swept_fs ''LibriSpeech'') ?names"
    by code_simp
  then have "\<forall>fname \<in> set ?names. no_index swept_fs ''LibriSpeech'' fname"
    by (simp only: list_all_iff)
  with fr' have r': "clean swept_fs ''LibriSpeech'' ?names True = Inr swept_fs"
    by blast
  from r m m' wf f fo f' k ko k' t np t' n r' show ?thesis
    by - (intro conjI, assumption+)
qed

subsection \<open>Saving the index\<close>

lemma master_path_nonempty: "master_path folder_dir fname \<noteq> []"
  by (simp add: master_path_def path_join_def startswith_def)

lemma initialize_keeps_dumped:
  "librispeech_initialize dumps fs folder_dir folder_names save_folder verbose = Inr fs' \<Longrightarrow>
   \<exists>data. lookup fs cs = Some (File (dumps data)) \<Longrightarrow>
   \<exists>data. lookup fs' cs = Some (File (dumps data))"
proof (induction folder_names arbitrary: fs)
  case Nil
  then show ?case by simp
next
  case (Cons fname rest)
  let ?m = "master_path folder_dir fname"
  from Cons.prems(1) obtain data fs1 where
    w: "open_wb fs ?m (dumps data) = Inr fs1"
    and r: "librispeech_initialize dumps fs1 folder_dir rest save_folder verbose = Inr fs'"
    by (auto simp: Let_def master_path_def split: if_splits sum.splits)
  from w have p: "put fs (comps ?m) (dumps data) = Inr fs1"
    by (simp add: open_wb_def master_path_nonempty)
  have "\<exists>data. lookup fs1 cs = Some (File (dumps data))"
  proof (cases "cs = comps ?m")
    case True
    with put_same [OF p] show ?thesis by blast
  next
    case False
    from Cons.prems(2) obtain d0 where "lookup fs cs = Some (File (dumps d0))" ..
    from put_other [OF p this False] show ?thesis by blast
  qed
  from Cons.IH [OF r this] show ?case .
qed

lemma initialize_writes_master:
  "librispeech_initialize dumps fs folder_dir folder_names save_folder verbose = Inr fs' \<Longrightarrow>
   fname \<in> set folder_names \<Longrightarrow>
   \<exists>data. open_rb fs' (master_path folder_dir fname) = Inr (dumps data)"
proof (induction folder_names arbitrary: fs)
  case Nil
  then show ?case by simp
next
  case (Cons f rest)
  let ?m = "master_path folder_dir f"
  from Cons.prems(1) obtain data fs1 where
    w: "open_wb fs ?m (dumps data) = Inr fs1"
    and r: "librispeech_initialize dumps fs1 folder_dir rest save_folder verbose = Inr fs'"
    by (auto simp: Let_def master_path_def split: if_splits sum.splits)
  from w have p: "put fs (comps ?m) (dumps data) = Inr fs1"
    by (simp add: open_wb_def master_path_nonempty)
  show ?case
  proof (cases "fname \<in> set rest")
    case True
    from Cons.IH [OF r True] show ?thesis .
  next
    case False
    with Cons.prems(2) have f: "fname = f" by simp
    from put_same [OF p] have "\<exists>data. lookup fs1 (comps ?m) = Some (File (dumps data))"
      by blast
    from initialize_keeps_dumped [OF r this] show ?thesis
      by (auto simp: f open_rb_def resolve_def master_path_nonempty)
  qed
qed

lemma initialize_frame:
  "librispeech_initialize dumps fs folder_dir folder_names save_folder verbose = Inr fs' \<Longrightarrow>
   lookup fs cs = Some (File c) \<Longrightarrow>
   \<forall>fname \<in> set folder_names. cs \<noteq> comps (master_path folder_dir fname) \<Longrightarrow>
   lookup fs' cs = Some (File c)"
proof (induction folder_names arbitrary: fs)
  case Nil
  then show ?case by simp
next
  case (Cons f rest)
  let ?m = "master_path folder_dir f"
  from Cons.prems(1) obtain data fs1 where
    w: "open_wb fs ?m (dumps data) = Inr fs1"
    and r: "librispeech_initialize dumps fs1 folder_dir rest save_folder verbose = Inr fs'"
    by (auto simp: Let_def master_path_def split: if_splits sum.splits)
  from w have p: "put fs (comps ?m) (dumps data) = Inr fs1"
    by (simp add: open_wb_def master_path_nonempty)
  from Cons.prems(3) have ne: "cs \<noteq> comps ?m"
    and rest: "\<forall>fname \<in> set rest. cs \<noteq> comps (master_path folder_dir fname)"
    by simp_all
  from put_other [OF p Cons.prems(2) ne] have "lookup fs1 cs = Some (File c)" .
  from Cons.IH [OF r this rest] show ?case .
qed

lemma initialize_ignores_save_folder:
  "librispeech_initialize dumps fs folder_dir folder_names save_folder verbose =
   librispeech_initialize dumps fs folder_dir folder_names save_folder' verbose"
  by (induction folder_names arbitrary: fs) (auto simp: Let_def split: sum.splits)

text \<open>C10. Two calls of \<^verbatim>\<open>librispeech_initialize\<close> that differ in
  \<^verbatim>\<open>save_folder\<close> only have the same result; when the call returns, the file
  \<^verbatim>\<open>master.pkl\<close> in the directory of every selected dataset holds a serialised
  index, and every other file is as before.\<close>

theorem save_folder_has_no_effect:
  "librispeech_initialize dumps fs folder_dir folder_names save_folder verbose =
     librispeech_initialize dumps fs folder_dir folder_names save_folder' verbose \<and>
   (\<forall>fs'. librispeech_initialize dumps fs folder_dir folder_names save_folder verbose = Inr fs'
      \<longrightarrow> (\<forall>fname \<in> set folder_names.
             \<exists>data. open_rb fs' (master_path folder_dir fname) = Inr (dumps data)) \<and>
          (\<forall>cs c. lookup fs cs = Some (File c) \<longrightarrow>
             (\<forall>fname \<in> set folder_names. cs \<noteq> comps (master_path folder_dir fname)) \<longrightarrow>
             lookup fs' cs = Some (File c)))"
proof (intro conjI allI impI ballI)
  show "librispeech_initialize dumps fs folder_dir folder_names save_folder verbose =
     librispeech_initialize dumps fs folder_dir folder_names save_folder' verbose"
    by (rule initialize_ignores_save_folder)
next
  fix fs' fname
  assume "librispeech_initialize dumps fs folder_dir folder_names save_folder verbose = Inr fs'"
    and "fname \<in> set folder_names"
  then show "\<exists>data. open_rb fs' (master_path folder_dir fname) = Inr (dumps data)"
    by (rule initialize_writes_master)
next
  fix fs' cs c
  assume "librispeech_initialize dumps fs folder_dir folder_names save_folder verbose = Inr fs'"
    and "lookup fs cs = Some (File c)"
    and "\<forall>fname \<in> set folder_names. cs \<noteq> comps (master_path folder_dir fname)"
  then show "lookup fs' cs = Some (File c)"
    by (rule initialize_frame)
qed

theorem save_folder_has_no_effect_witness:
  "librispeech_initialize show_index corpus_fs ''LibriSpeech'' [''dev-clean''] ''out'' False
     = Inr saved_fs \<and>
   librispeech_initialize show_index corpus_fs ''LibriSpeech'' [''dev-clean''] ''elsewhere'' False
     = Inr saved_fs \<and>
   master_path ''LibriSpeech'' ''dev-clean'' = ''LibriSpeech/dev-clean/master.pkl'' \<and>
   open_rb saved_fs ''LibriSpeech/dev-clean/master.pkl'' = Inr (show_index corpus_index) \<and>
   lookup corpus_fs [''LibriSpeech'', ''README.TXT''] = Some (File ''LibriSpeech'') \<and>
   lookup saved_fs [''LibriSpeech'', ''README.TXT''] = Some (File ''LibriSpeech'')"
proof -
  have a: "librispeech_initialize show_index corpus_fs ''LibriSpeech'' [''dev-clean'']
      ''out'' False = Inr saved_fs"
    by code_simp
  from save_folder_has_no_effect
    [of show_index corpus_fs "''LibriSpeech''" "[''dev-clean'']" "''out''" False "''elsewhere''"]
  have e: "librispeech_initialize show_index corpus_fs ''LibriSpeech'' [''dev-clean''] ''out'' False =
     librispeech_initialize show_index corpus_fs ''LibriSpeech'' [''dev-clean''] ''elsewhere'' False"
    by (rule conjunct1)
  from a e have b: "librispeech_initialize show_index corpus_fs ''LibriSpeech''
      [''dev-clean''] ''elsewhere'' False = Inr saved_fs"
    by simp
  have m: "master_path ''LibriSpeech'' ''dev-clean'' = ''LibriSpeech/dev-clean/master.pkl''"
    by code_simp
  have o: "open_rb saved_fs ''LibriSpeech/dev-clean/master.pkl'' = Inr (show_index corpus_index)"
    by code_simp
  have l: "lookup corpus_fs [''LibriSpeech'', ''README.TXT''] = Some (File ''LibriSpeech'')"
    by code_simp
  have l': "lookup saved_fs [''LibriSpeech'', ''README.TXT''] = Some (File ''LibriSpeech'')"
    by code_simp
  from a b m o l l' show ?thesis
    by - (intro conjI, assumption+)
qed

end
